theory Spec2Isabelle
  imports Main "HOL-Library.AList"
begin

section \<open>The session router of the MCP streamable-HTTP server\<close>

text \<open>
  The development embeds the session routing of \<^verbatim>\<open>createMcpServer\<close> /
  \<^verbatim>\<open>start\<close>: the object \<^verbatim>\<open>transports\<close>, the three handlers of \<^verbatim>\<open>/mcp\<close> and
  the loop of \<^verbatim>\<open>gracefulShutdown\<close>. The source holds three revisions of this code.
  The one embedded is the second of \<^verbatim>\<open>src/unnamed/part_000\<close> (lines 333--560 and
  718--737). \<^verbatim>\<open>src/unnamed/part_001\<close> routes in the same way and differs in case 2
  only by not setting \<^verbatim>\<open>Content-Type\<close> and \<^verbatim>\<open>Connection\<close>; the first revision of
  \<^verbatim>\<open>src/unnamed/part_000\<close> (lines 45--131) has no case 3 and sets no response header.
  The GET and DELETE handlers and the shutdown loop are the same in all three.

  The transport class and the protocol engine come from an SDK that is not part of the
  repository. What they do when the handlers call them is a parameter of the model
  (\<open>library\<close> below): for every call it says which of the two callbacks the handler
  installed on the transport are fired, whether the call throws, and whether response
  headers have been sent by then.
\<close>

subsection \<open>Data\<close>

datatype json =
    JNull
  | JBool bool
  | JNum int
  | JStr string
  | JArr "json list"
  | JObj "(string \<times> json) list"

text \<open>Transports are objects with identity; \<open>tid\<close> is the address of one in the heap.\<close>

type_synonym tid = nat

text \<open>
  The two \<^verbatim>\<open>sessionIdGenerator\<close> closures of the source:
  \<^verbatim>\<open>() => randomUUID()\<close> (case 2) and \<^verbatim>\<open>() => sessionId\<close> (case 3).
\<close>

datatype idgen = RandomUUID | ProvidedId string

text \<open>
  A \<^verbatim>\<open>StreamableHTTPServerTransport\<close> as far as the handlers see it: the generator
  it was constructed with and its \<^verbatim>\<open>sessionId\<close> field, \<^verbatim>\<open>undefined\<close> until the
  library assigns it.
\<close>

record transport =
  sessionIdGenerator :: idgen
  sessionId :: "string option"

text \<open>
  A log of what was executed, kept beside the state. It is never read by the model of the
  code; the theorems use it to say who did what and in which order.
\<close>

datatype origin = Handler | Callback | Shutdown

datatype action =
    Construct tid idgen
  | Connect tid
  | Put origin string tid
  | Remove origin string
  | HandleRequest tid
  | Close tid

record server =
  transports :: "(string \<times> tid) list"
  heap :: "transport list"
  trace :: "action list"

definition initial :: server where
  "initial = \<lparr>transports = [], heap = [], trace = []\<rparr>"

record request =
  req_headers :: "(string \<times> string) list"
  req_body :: json

datatype payload = JsonBody json | TextBody string

text \<open>
  The fields of the Koa context the handlers assign: \<^verbatim>\<open>ctx.status\<close>, \<^verbatim>\<open>ctx.body\<close>,
  the calls of \<^verbatim>\<open>ctx.set\<close> in order, and \<^verbatim>\<open>ctx.respond\<close>.
\<close>

record ctx =
  status :: "nat option"
  body :: "payload option"
  out_headers :: "(string \<times> string) list"
  respond :: bool

definition ctx0 :: ctx where
  "ctx0 = \<lparr>status = None, body = None, out_headers = [], respond = True\<rparr>"

definition ctx_set :: "string \<Rightarrow> string \<Rightarrow> ctx \<Rightarrow> ctx" where
  "ctx_set name v c = c\<lparr>out_headers := out_headers c @ [(name, v)]\<rparr>"

subsection \<open>Reading a property of the \<^verbatim>\<open>transports\<close> object\<close>

text \<open>
  \<^verbatim>\<open>transports\<close> is created by the object literal \<^verbatim>\<open>{}\<close>, so its prototype is
  \<^verbatim>\<open>Object.prototype\<close>. Reading \<^verbatim>\<open>transports[k]\<close> gives the own property when there
  is one, and otherwise the property inherited from \<^verbatim>\<open>Object.prototype\<close> when \<open>k\<close>
  names one (a function or an object, hence truthy), and \<^verbatim>\<open>undefined\<close> otherwise.
\<close>

datatype jsval = Undefined | Inherited | Ref tid

definition object_prototype_keys :: "string list" where
  "object_prototype_keys =
     [''constructor'', ''__defineGetter__'', ''__defineSetter__'', ''hasOwnProperty'',
      ''__lookupGetter__'', ''__lookupSetter__'', ''isPrototypeOf'',
      ''propertyIsEnumerable'', ''toString'', ''valueOf'', ''__proto__'',
      ''toLocaleString'']"

definition get_property :: "(string \<times> tid) list \<Rightarrow> string \<Rightarrow> jsval" where
  "get_property obj k =
     (case map_of obj k of
        Some t \<Rightarrow> Ref t
      | None \<Rightarrow> if k \<in> set object_prototype_keys then Inherited else Undefined)"

fun truthy :: "jsval \<Rightarrow> bool" where
  "truthy Undefined = False"
| "truthy Inherited = True"
| "truthy (Ref t) = True"

text \<open>
  The header \<^verbatim>\<open>ctx.headers['mcp-session-id']\<close> is a string or \<^verbatim>\<open>undefined\<close>; the
  empty string is falsy.
\<close>

fun truthy_header :: "string option \<Rightarrow> bool" where
  "truthy_header None = False"
| "truthy_header (Some s) = (s \<noteq> [])"

text \<open>\<^verbatim>\<open>transports[sessionId]\<close>; the key \<^verbatim>\<open>undefined\<close> is converted to a string.\<close>

fun index_transports :: "server \<Rightarrow> string option \<Rightarrow> jsval" where
  "index_transports st None = get_property (transports st) ''undefined''"
| "index_transports st (Some s) = get_property (transports st) s"

text \<open>\<^verbatim>\<open>transport.sessionId\<close> of the transport at an address.\<close>

definition session_id_of :: "server \<Rightarrow> tid \<Rightarrow> string option" where
  "session_id_of st t = (if t < length (heap st) then sessionId (heap st ! t) else None)"

subsection \<open>\<^verbatim>\<open>randomUUID\<close>\<close>

text \<open>
  \<^verbatim>\<open>randomUUID()\<close> of \<^verbatim>\<open>node:crypto\<close> returns a version 4 UUID: 32 lower-case
  hexadecimal digits in groups of 8, 4, 4, 4 and 12, the third group starting with
  \<open>4\<close> and the fourth with one of \<open>8 9 a b\<close>. The argument is the random number
  drawn.
\<close>

definition hex_digit :: "nat \<Rightarrow> char" where
  "hex_digit n = ''0123456789abcdef'' ! (n mod 16)"

definition hex_digits :: "nat \<Rightarrow> nat list \<Rightarrow> string" where
  "hex_digits e ps = map (\<lambda>i. hex_digit (e div 16 ^ i)) ps"

definition randomUUID :: "nat \<Rightarrow> string" where
  "randomUUID e =
     hex_digits e [31, 30, 29, 28, 27, 26, 25, 24] @ ''-'' @
     hex_digits e [23, 22, 21, 20] @ ''-4'' @
     hex_digits e [18, 17, 16] @ ''-'' @
     [hex_digit (8 + (e div 16 ^ 15) mod 4)] @ hex_digits e [14, 13, 12] @ ''-'' @
     hex_digits e [11, 10, 9, 8, 7, 6, 5, 4, 3, 2, 1, 0]"

fun generate :: "idgen \<Rightarrow> nat \<Rightarrow> string" where
  "generate RandomUUID e = randomUUID e"
| "generate (ProvidedId s) e = s"

subsection \<open>Writing the \<^verbatim>\<open>transports\<close> object and the two callbacks\<close>

text \<open>
  \<^verbatim>\<open>transports[k] = transport\<close> and \<^verbatim>\<open>delete transports[k]\<close>. An assignment keeps
  the place of a key that exists and appends a new one; deleting a key that is not there
  does nothing.
\<close>

definition store_transport :: "origin \<Rightarrow> string \<Rightarrow> tid \<Rightarrow> server \<Rightarrow> server" where
  "store_transport by k t st =
     st\<lparr>transports := AList.update k t (transports st), trace := trace st @ [Put by k t]\<rparr>"

definition delete_transport :: "origin \<Rightarrow> string \<Rightarrow> server \<Rightarrow> server" where
  "delete_transport by k st =
     st\<lparr>transports := AList.delete k (transports st), trace := trace st @ [Remove by k]\<rparr>"

text \<open>
  \<^verbatim>\<open>onsessioninitialized: (sid) => { transports[sid] = transport; }\<close>, the same closure
  in case 2 and in case 3.
\<close>

definition onsessioninitialized :: "tid \<Rightarrow> string \<Rightarrow> server \<Rightarrow> server" where
  "onsessioninitialized t sid st = store_transport Callback sid t st"

text \<open>
  \<^verbatim>\<open>transport.onclose = () => { const sid = transport.sessionId;
  if (sid && transports[sid]) { delete transports[sid]; } }\<close>
\<close>

definition onclose :: "tid \<Rightarrow> server \<Rightarrow> server" where
  "onclose t st =
     (let sid = session_id_of st t
      in if truthy_header sid \<and> truthy (index_transports st sid)
         then (case sid of Some s \<Rightarrow> delete_transport Callback s st | None \<Rightarrow> st)
         else st)"

subsection \<open>The transport library\<close>

text \<open>
  What one call into the library does, as far as the server can observe: the callbacks of
  the transport it fires, in order, whether the call throws, and the value of
  \<^verbatim>\<open>ctx.res.headersSent\<close> after it.
\<close>

datatype lib_event = AssignSessionId nat | Teardown

record lib_outcome =
  events :: "lib_event list"
  raises :: bool
  headersSent :: bool

record library =
  isInitializeRequest :: "json \<Rightarrow> bool"
  connect_raises :: "tid \<Rightarrow> bool"
  handleRequest :: "tid \<Rightarrow> request \<Rightarrow> lib_outcome"
  close :: "tid \<Rightarrow> lib_outcome"

text \<open>
  Modelled from the spec: the transport class of the SDK is not under \<^verbatim>\<open>src/\<close>. The
  spec has the engine assign the session id of a pending transport during the
  initialization handshake, once (pending to active), by the generator the transport was
  constructed with, and then fire the initialization callback with that id; tearing a
  transport down fires its close callback. The number carried by \<open>AssignSessionId\<close> is
  the random draw the generator uses when it is \<^verbatim>\<open>randomUUID\<close>.
\<close>

fun lib_step :: "tid \<Rightarrow> lib_event \<Rightarrow> server \<Rightarrow> server" where
  "lib_step t (AssignSessionId e) st =
     (if t < length (heap st) then
        (case sessionId (heap st ! t) of
           Some s \<Rightarrow> st
         | None \<Rightarrow>
             (let sid = generate (sessionIdGenerator (heap st ! t)) e
              in onsessioninitialized t sid
                   (st\<lparr>heap := (heap st)[t := (heap st ! t)\<lparr>sessionId := Some sid\<rparr>]\<rparr>)))
      else st)"
| "lib_step t Teardown st = onclose t st"

fun lib_run :: "tid \<Rightarrow> lib_event list \<Rightarrow> server \<Rightarrow> server" where
  "lib_run t [] st = st"
| "lib_run t (e # es) st = lib_run t es (lib_step t e st)"

subsection \<open>The POST handler\<close>

text \<open>\<^verbatim>\<open>new StreamableHTTPServerTransport({sessionIdGenerator: g, ...})\<close>\<close>

definition new_transport :: "idgen \<Rightarrow> server \<Rightarrow> tid \<times> server" where
  "new_transport g st =
     (length (heap st),
      st\<lparr>heap := heap st @ [\<lparr>sessionIdGenerator = g, sessionId = None\<rparr>],
         trace := trace st @ [Construct (length (heap st)) g]\<rparr>)"

definition log :: "action \<Rightarrow> server \<Rightarrow> server" where
  "log a st = st\<lparr>trace := trace st @ [a]\<rparr>"

definition jsonrpc_error :: "int \<Rightarrow> string \<Rightarrow> json" where
  "jsonrpc_error code msg =
     JObj [(''jsonrpc'', JStr ''2.0''),
           (''error'', JObj [(''code'', JNum code), (''message'', JStr msg)]),
           (''id'', JNull)]"

definition bad_request :: "ctx \<Rightarrow> ctx" where
  "bad_request c =
     c\<lparr>status := Some 400,
       body := Some (JsonBody
         (jsonrpc_error (- 32000) ''Bad Request: No valid session ID provided''))\<rparr>"

text \<open>The \<^verbatim>\<open>catch\<close> block of the POST handler.\<close>

definition post_catch :: "bool \<Rightarrow> ctx \<Rightarrow> ctx" where
  "post_catch sent c =
     (if \<not> sent
      then c\<lparr>status := Some 500,
             body := Some (JsonBody (jsonrpc_error (- 32603) ''Internal server error''))\<rparr>
      else c)"

text \<open>
  \<^verbatim>\<open>await transport.handleRequest(...)\<close> on the value the variable \<^verbatim>\<open>transport\<close>
  holds. The result is the new state, whether the call threw, and
  \<^verbatim>\<open>ctx.res.headersSent\<close>. A value inherited from \<^verbatim>\<open>Object.prototype\<close> has no
  \<^verbatim>\<open>handleRequest\<close>, so calling it throws a TypeError before anything is sent.
\<close>

fun invoke_handleRequest ::
  "library \<Rightarrow> request \<Rightarrow> jsval \<Rightarrow> server \<Rightarrow> server \<times> bool \<times> bool" where
  "invoke_handleRequest lib req (Ref t) st =
     (let out = handleRequest lib t req
      in (lib_run t (events out) (log (HandleRequest t) st), raises out, headersSent out))"
| "invoke_handleRequest lib req Inherited st = (st, True, False)"
| "invoke_handleRequest lib req Undefined st = (st, True, False)"

text \<open>
  The end of the handler, shared by case 1 and case 3:
  \<^verbatim>\<open>await transport.handleRequest(ctx.req, ctx.res, ctx.request.body);
  ctx.respond = false; return;\<close> inside the \<^verbatim>\<open>try\<close>.
\<close>

definition handle_and_return ::
  "library \<Rightarrow> request \<Rightarrow> jsval \<Rightarrow> server \<Rightarrow> server \<times> ctx" where
  "handle_and_return lib req v st =
     (case invoke_handleRequest lib req v st of
        (st', raised, sent) \<Rightarrow>
          if raised then (st', post_catch sent ctx0) else (st', ctx0\<lparr>respond := False\<rparr>))"

text \<open>Case 2: no session id and an initialize message.\<close>

definition post_initialize :: "library \<Rightarrow> server \<Rightarrow> request \<Rightarrow> server \<times> ctx" where
  "post_initialize lib st req =
     (case new_transport RandomUUID st of
        (t, st1) \<Rightarrow>
          if connect_raises lib t then (st1, post_catch False ctx0)
          else
            (case invoke_handleRequest lib req (Ref t) (log (Connect t) st1) of
               (st2, raised, sent) \<Rightarrow>
                 if raised then (st2, post_catch sent ctx0)
                 else
                   (let c1 = (if truthy_header (session_id_of st2 t)
                              then (case session_id_of st2 t of
                                      Some s \<Rightarrow> ctx_set ''mcp-session-id'' s ctx0
                                    | None \<Rightarrow> ctx0)
                              else ctx0);
                        c2 = (if \<not> sent
                              then ctx_set ''Connection'' ''keep-alive''
                                     (ctx_set ''Content-Type'' ''application/json'' c1)
                              else c1)
                    in (st2, c2\<lparr>respond := False\<rparr>))))"

text \<open>Case 3: a session id that \<^verbatim>\<open>transports\<close> does not have.\<close>

definition post_provided :: "library \<Rightarrow> server \<Rightarrow> request \<Rightarrow> string \<Rightarrow> server \<times> ctx" where
  "post_provided lib st req s =
     (case new_transport (ProvidedId s) st of
        (t, st1) \<Rightarrow>
          if connect_raises lib t then (st1, post_catch False ctx0)
          else handle_and_return lib req (Ref t)
                 (store_transport Handler s t (log (Connect t) st1)))"

text \<open>
  The handler, with the branches in the order of the source. In the third branch the
  header is a string, since only a string is truthy; the alternative of the
  \<open>case\<close> for an absent header is never taken.
\<close>

definition post_mcp :: "library \<Rightarrow> server \<Rightarrow> request \<Rightarrow> server \<times> ctx" where
  "post_mcp lib st req =
     (let sid = map_of (req_headers req) ''mcp-session-id''
      in if truthy_header sid \<and> truthy (index_transports st sid) then
           handle_and_return lib req (index_transports st sid) st
         else if \<not> truthy_header sid \<and> isInitializeRequest lib (req_body req) then
           post_initialize lib st req
         else if truthy_header sid \<and> \<not> truthy (index_transports st sid) then
           (case sid of
              Some s \<Rightarrow> post_provided lib st req s
            | None \<Rightarrow> (st, bad_request ctx0))
         else if \<not> truthy_header sid \<and> \<not> isInitializeRequest lib (req_body req) then
           (st, bad_request ctx0)
         else (st, bad_request ctx0))"

subsection \<open>The GET and DELETE handlers\<close>

definition invalid_session :: "ctx \<Rightarrow> ctx" where
  "invalid_session c =
     c\<lparr>status := Some 400, body := Some (TextBody ''Invalid or missing session ID'')\<rparr>"

definition text_catch :: "string \<Rightarrow> bool \<Rightarrow> ctx \<Rightarrow> ctx" where
  "text_catch msg sent c =
     (if \<not> sent then c\<lparr>status := Some 500, body := Some (TextBody msg)\<rparr> else c)"

definition get_mcp :: "library \<Rightarrow> server \<Rightarrow> request \<Rightarrow> server \<times> ctx" where
  "get_mcp lib st req =
     (let sid = map_of (req_headers req) ''mcp-session-id''
      in if \<not> truthy_header sid \<or> \<not> truthy (index_transports st sid) then
           (st, invalid_session ctx0)
         else
           (case invoke_handleRequest lib req (index_transports st sid) st of
              (st', raised, sent) \<Rightarrow>
                if raised then (st', text_catch ''Internal server error'' sent ctx0)
                else (st', ctx0)))"

definition delete_mcp :: "library \<Rightarrow> server \<Rightarrow> request \<Rightarrow> server \<times> ctx" where
  "delete_mcp lib st req =
     (let sid = map_of (req_headers req) ''mcp-session-id''
      in if \<not> truthy_header sid \<or> \<not> truthy (index_transports st sid) then
           (st, invalid_session ctx0)
         else
           (case invoke_handleRequest lib req (index_transports st sid) st of
              (st', raised, sent) \<Rightarrow>
                if raised
                then (st', text_catch ''Error processing session termination'' sent ctx0)
                else (st', ctx0)))"

subsection \<open>The loop of \<^verbatim>\<open>gracefulShutdown\<close>\<close>

text \<open>
  \<^verbatim>\<open>for (const sessionId in transports)\<close> visits the own keys that are array indices
  (canonical decimal numbers below \<open>2^32 - 1\<close>) in ascending order, then the other keys
  in the order of their creation; the inherited properties are not enumerable. A key
  deleted before its turn is skipped.
\<close>

definition decimal :: "string \<Rightarrow> nat" where
  "decimal s = foldl (\<lambda>n c. 10 * n + (of_char c - 48)) 0 s"

definition is_array_index :: "string \<Rightarrow> bool" where
  "is_array_index s =
     (s \<noteq> [] \<and> list_all (\<lambda>c. c \<in> set ''0123456789'') s \<and>
      (length s = 1 \<or> hd s \<noteq> CHR ''0'') \<and> decimal s < 2 ^ 32 - 1)"

definition for_in_keys :: "(string \<times> tid) list \<Rightarrow> string list" where
  "for_in_keys obj =
     sort_key decimal (filter is_array_index (map fst obj)) @
     filter (\<lambda>k. \<not> is_array_index k) (map fst obj)"

text \<open>
  The listener is closed only after the loop, and every turn awaits \<^verbatim>\<open>close()\<close>: while
  a turn is suspended other requests can be served and the library can fire callbacks of
  any transport. An \<open>env_step\<close> is one such event.
\<close>

datatype env_step =
    ServePost library request
  | ServeGet library request
  | ServeDelete library request
  | Fire tid lib_event

fun env_run :: "env_step list \<Rightarrow> server \<Rightarrow> server" where
  "env_run [] st = st"
| "env_run (ServePost lib req # es) st = env_run es (fst (post_mcp lib st req))"
| "env_run (ServeGet lib req # es) st = env_run es (fst (get_mcp lib st req))"
| "env_run (ServeDelete lib req # es) st = env_run es (fst (delete_mcp lib st req))"
| "env_run (Fire t e # es) st = env_run es (lib_step t e st)"

text \<open>
  One turn of the loop:
  \<^verbatim>\<open>try { await transports[sessionId].close(); delete transports[sessionId]; }
  catch (error) { logger.error(...) }\<close>.
  The transport is read and \<^verbatim>\<open>close()\<close> called, the turn is suspended while \<open>env\<close>
  happens, and the key is deleted when the turn resumes, unless the call raised.
\<close>

definition close_session :: "library \<Rightarrow> env_step list \<Rightarrow> string \<Rightarrow> server \<Rightarrow> server" where
  "close_session lib env k st =
     (case map_of (transports st) k of
        None \<Rightarrow> st
      | Some t \<Rightarrow>
          (let out = close lib t;
               st1 = lib_run t (events out) (log (Close t) st);
               st2 = env_run env st1
           in if raises out then st2 else delete_transport Shutdown k st2))"

text \<open>
  The turns, over the keys taken when the loop starts (a key stored later is not
  visited); \<open>envs\<close> says turn by turn what happens while the turn is suspended, and
  nothing happens in the turns it does not reach.
\<close>

fun close_sessions ::
  "library \<Rightarrow> string list \<Rightarrow> env_step list list \<Rightarrow> server \<Rightarrow> server" where
  "close_sessions lib [] envs st = st"
| "close_sessions lib (k # ks) [] st = close_sessions lib ks [] (close_session lib [] k st)"
| "close_sessions lib (k # ks) (env # envs) st =
     close_sessions lib ks envs (close_session lib env k st)"

text \<open>
  The loop of \<^verbatim>\<open>gracefulShutdown\<close>; closing the listener and the engine and leaving
  the process, which follow it, are not part of the model.
\<close>

definition gracefulShutdown :: "library \<Rightarrow> env_step list list \<Rightarrow> server \<Rightarrow> server" where
  "gracefulShutdown lib envs st = close_sessions lib (for_in_keys (transports st)) envs st"

subsection \<open>Predicates used by the properties\<close>

text \<open>
  The id under which a session is known: the \<^verbatim>\<open>sessionId\<close> field once the library
  has assigned it, and before that the id the generator is bound to return, which is
  fixed for a transport constructed in case 3 and not yet drawn for one constructed in
  case 2.
\<close>

definition session_id_for :: "transport \<Rightarrow> string option" where
  "session_id_for tr =
     (case sessionId tr of
        Some s \<Rightarrow> Some s
      | None \<Rightarrow> (case sessionIdGenerator tr of ProvidedId s \<Rightarrow> Some s | RandomUUID \<Rightarrow> None))"

definition key_consistent :: "server \<Rightarrow> bool" where
  "key_consistent st =
     (\<forall>(k, t) \<in> set (transports st).
        t < length (heap st) \<and> session_id_for (heap st ! t) = Some k)"

text \<open>
  A key that is not empty and does not name a property of \<^verbatim>\<open>Object.prototype\<close>:
  assigning \<^verbatim>\<open>transports[k]\<close> for such a key creates or overwrites an own property,
  which is what \<open>store_transport\<close> does.
\<close>

definition plain_key :: "string \<Rightarrow> bool" where
  "plain_key k = (k \<noteq> [] \<and> k \<notin> set object_prototype_keys)"

definition ids_plain :: "server \<Rightarrow> bool" where
  "ids_plain st =
     (\<forall>tr \<in> set (heap st). \<forall>k. session_id_for tr = Some k \<longrightarrow> plain_key k)"

text \<open>
  The entries of the log written by the two callbacks, and the entries a handler wrote
  itself between two states.
\<close>

fun by_callback :: "action \<Rightarrow> bool" where
  "by_callback (Put by k t) = (by = Callback)"
| "by_callback (Remove by k) = (by = Callback)"
| "by_callback a = False"

definition handler_actions :: "server \<Rightarrow> server \<Rightarrow> action list" where
  "handler_actions st st' =
     filter (\<lambda>a. \<not> by_callback a) (drop (length (trace st)) (trace st'))"

text \<open>
  How often a transport was stored in \<^verbatim>\<open>transports\<close>, by whom. \<open>provided\<close> says
  that a transport was constructed in case 3.
\<close>

fun is_put :: "origin \<Rightarrow> tid \<Rightarrow> action \<Rightarrow> bool" where
  "is_put by t (Put b k t') = (b = by \<and> t' = t)"
| "is_put by t a = False"

definition put_count :: "origin \<Rightarrow> tid \<Rightarrow> server \<Rightarrow> nat" where
  "put_count by t st = length (filter (is_put by t) (trace st))"

definition provided :: "server \<Rightarrow> tid \<Rightarrow> bool" where
  "provided st t = (t < length (heap st) \<and> sessionIdGenerator (heap st ! t) \<noteq> RandomUUID)"

definition connected :: "server \<Rightarrow> tid \<Rightarrow> bool" where
  "connected st t = (Connect t \<in> set (trace st))"

definition puts_ok :: "server \<Rightarrow> tid \<Rightarrow> bool" where
  "puts_ok st t =
     (put_count Callback t st = (if session_id_of st t = None then 0 else 1) \<and>
      put_count Handler t st = (if provided st t \<and> connected st t then 1 else 0) \<and>
      put_count Shutdown t st = 0 \<and>
      (length (heap st) \<le> t \<longrightarrow> \<not> connected st t))"

definition puts_bounded :: "server \<Rightarrow> bool" where
  "puts_bounded st = (\<forall>t. puts_ok st t)"



text \<open>
  What the loop of \<^verbatim>\<open>gracefulShutdown\<close> adds to the log, and the entries that can
  change what \<^verbatim>\<open>transports\<close> holds under a key other than the deletion made by a turn
  of the loop itself: an assignment to the key, and the deletion made by a close callback.
  \<open>tracked\<close> relates two states when the log of the second extends the log of the
  first, every entry of \<^verbatim>\<open>transports\<close> in the second is an entry of the first or was
  assigned in between, and every key whose entry differs was touched in between.
\<close>

fun touches :: "string \<Rightarrow> action \<Rightarrow> bool" where
  "touches k (Put who k' t) = (k' = k)"
| "touches k (Remove who k') = (k' = k \<and> who = Callback)"
| "touches k a = False"

definition tracked :: "server \<Rightarrow> server \<Rightarrow> bool" where
  "tracked st st' =
     (\<exists>tr. trace st' = trace st @ tr \<and>
        (\<forall>k t. map_of (transports st') k = Some t \<longrightarrow>
           map_of (transports st) k = Some t \<or> (\<exists>who. Put who k t \<in> set tr)) \<and>
        (\<forall>k. map_of (transports st') k \<noteq> map_of (transports st) k \<longrightarrow>
           (\<exists>a \<in> set tr. touches k a)))"

definition loop_actions :: "library \<Rightarrow> env_step list list \<Rightarrow> server \<Rightarrow> action list" where
  "loop_actions lib envs st = drop (length (trace st)) (trace (gracefulShutdown lib envs st))"

text \<open>
  The states the server can be in: the empty start, the state after any request to
  \<^verbatim>\<open>/mcp\<close> or after the shutdown loop, whatever the library does during the calls, and
  the points inside them where other requests can run: right after the direct insertion
  of case 3 (the handler then awaits \<^verbatim>\<open>handleRequest\<close>), after a turn of the
  shutdown loop, and after the library fires a callback of an existing transport on its
  own (a client that disconnects).
\<close>

inductive reachable :: "server \<Rightarrow> bool" where
  start: "reachable initial"
| post: "reachable st \<Longrightarrow> reachable (fst (post_mcp lib st req))"
| get: "reachable st \<Longrightarrow> reachable (fst (get_mcp lib st req))"
| delete: "reachable st \<Longrightarrow> reachable (fst (delete_mcp lib st req))"
| shutdown: "reachable st \<Longrightarrow> reachable (gracefulShutdown lib envs st)"
| closing: "reachable st \<Longrightarrow> reachable (close_session lib env k st)"
| inserted:
    "reachable st \<Longrightarrow> s \<noteq> [] \<Longrightarrow> \<not> truthy (get_property (transports st) s) \<Longrightarrow>
     reachable (store_transport Handler s (length (heap st))
                 (log (Connect (length (heap st))) (snd (new_transport (ProvidedId s) st))))"
| callback: "reachable st \<Longrightarrow> t < length (heap st) \<Longrightarrow> reachable (lib_step t e st)"

subsection \<open>Sample inputs\<close>

text \<open>
  A library and requests for the concrete instances below. \<open>is_initialize_message\<close>
  stands in for the SDK's \<^verbatim>\<open>isInitializeRequest\<close>, which accepts an object whose
  \<^verbatim>\<open>method\<close> is \<^verbatim>\<open>initialize\<close> and whose \<^verbatim>\<open>params\<close> hold a protocol version (a
  string), the capabilities (an object) and the client's name and version (strings). The
  sample library assigns the session id when it handles an initialize message and fires
  the close callback when a transport is closed.
\<close>

definition has_string :: "(string \<times> json) list \<Rightarrow> string \<Rightarrow> bool" where
  "has_string fs k = (case map_of fs k of Some (JStr s) \<Rightarrow> True | _ \<Rightarrow> False)"

definition has_object :: "(string \<times> json) list \<Rightarrow> string \<Rightarrow> bool" where
  "has_object fs k = (case map_of fs k of Some (JObj ps) \<Rightarrow> True | _ \<Rightarrow> False)"

definition is_initialize_message :: "json \<Rightarrow> bool" where
  "is_initialize_message j =
     (case j of
        JObj fs \<Rightarrow>
          map_of fs ''method'' = Some (JStr ''initialize'') \<and>
          (case map_of fs ''params'' of
             Some (JObj ps) \<Rightarrow>
               has_string ps ''protocolVersion'' \<and> has_object ps ''capabilities'' \<and>
               (case map_of ps ''clientInfo'' of
                  Some (JObj ci) \<Rightarrow> has_string ci ''name'' \<and> has_string ci ''version''
                | _ \<Rightarrow> False)
           | _ \<Rightarrow> False)
      | _ \<Rightarrow> False)"

definition sample_library :: "nat \<Rightarrow> library" where
  "sample_library e =
     \<lparr>isInitializeRequest = is_initialize_message,
      connect_raises = (\<lambda>t. False),
      handleRequest = (\<lambda>t r.
        \<lparr>events = (if is_initialize_message (req_body r) then [AssignSessionId e] else []),
         raises = False, headersSent = True\<rparr>),
      close = (\<lambda>t. \<lparr>events = [Teardown], raises = False, headersSent = False\<rparr>)\<rparr>"

definition initialize_body :: json where
  "initialize_body =
     JObj [(''jsonrpc'', JStr ''2.0''), (''id'', JNum 1), (''method'', JStr ''initialize''),
           (''params'', JObj
              [(''protocolVersion'', JStr ''2025-03-26''),
               (''capabilities'', JObj []),
               (''clientInfo'', JObj [(''name'', JStr ''client''),
                                      (''version'', JStr ''1.0.0'')])])]"

definition initialize_request :: request where
  "initialize_request =
     \<lparr>req_headers = [(''content-type'', ''application/json''),
                     (''accept'', ''application/json, text/event-stream'')],
      req_body = initialize_body\<rparr>"

definition tool_request :: "(string \<times> string) list \<Rightarrow> request" where
  "tool_request hs =
     \<lparr>req_headers = hs,
      req_body = JObj [(''jsonrpc'', JStr ''2.0''), (''id'', JNum 2),
                       (''method'', JStr ''tools/list'')]\<rparr>"

text \<open>
  A library whose \<^verbatim>\<open>close\<close> throws without firing a callback, a request that
  carries an unknown session id, one that carries it together with an initialize message,
  one whose session id names a property of \<^verbatim>\<open>Object.prototype\<close>, the states
  after the two kinds of session creation, and the state in the middle of case 3, right
  after the handler has stored the transport.
\<close>

definition failing_close_library :: library where
  "failing_close_library =
     (sample_library 5)\<lparr>close := (\<lambda>t. \<lparr>events = [], raises = True, headersSent = False\<rparr>)\<rparr>"

definition abc_request :: request where
  "abc_request = tool_request [(''mcp-session-id'', ''abc'')]"

definition abc_initialize_request :: request where
  "abc_initialize_request =
     \<lparr>req_headers = [(''mcp-session-id'', ''abc'')],
      req_body = initialize_body\<rparr>"

definition inherited_name_request :: request where
  "inherited_name_request = tool_request [(''mcp-session-id'', ''constructor'')]"

definition after_abc :: server where
  "after_abc = fst (post_mcp (sample_library 5) initial abc_request)"

definition after_initialize :: server where
  "after_initialize = fst (post_mcp (sample_library 5) initial initialize_request)"

definition inserted_abc :: server where
  "inserted_abc =
     store_transport Handler ''abc'' 0
       (log (Connect 0) (snd (new_transport (ProvidedId ''abc'') initial)))"

text \<open>
  A request with another unknown session id that is served while the first turn of the
  shutdown loop awaits \<^verbatim>\<open>close()\<close>; a request with the unknown session id
  \<^verbatim>\<open>abc\<close> that is served between two runs of a close callback; the state in which the session \<^verbatim>\<open>abc\<close> was
  created with an initialize message, its transport was torn down, and the id was
  registered again by a later request; a client that registers the id
  \<^verbatim>\<open>00000000-0000-4000-8000-000000000005\<close>, which is \<open>randomUUID 5\<close>, as its session
  id, and the state after it.
\<close>

definition post_c_during_close :: "env_step list list" where
  "post_c_during_close =
     [[ServePost (sample_library 5) (tool_request [(''mcp-session-id'', ''c'')])]]"



definition uuid_token_request :: request where
  "uuid_token_request =
     tool_request [(''mcp-session-id'', ''00000000-0000-4000-8000-000000000005'')]"

definition after_uuid_token :: server where
  "after_uuid_token = fst (post_mcp (sample_library 5) initial uuid_token_request)"

section \<open>Properties\<close>

lemmas handler_defs =
  post_mcp_def post_initialize_def post_provided_def handle_and_return_def get_mcp_def
  delete_mcp_def new_transport_def log_def store_transport_def delete_transport_def
  onsessioninitialized_def onclose_def session_id_of_def get_property_def
  object_prototype_keys_def bad_request_def post_catch_def text_catch_def invalid_session_def
  jsonrpc_error_def ctx0_def ctx_set_def Let_def

lemmas sample_defs =
  sample_library_def is_initialize_message_def has_string_def has_object_def
  initialize_body_def initialize_request_def tool_request_def abc_request_def initial_def

lemma initialize_body_accepted: "is_initialize_message initialize_body"
  by (simp add: is_initialize_message_def initialize_body_def has_string_def has_object_def)

subsection \<open>Session ids and key order\<close>

lemma length_randomUUID: "length (randomUUID e) = 36"
  by (simp add: randomUUID_def hex_digits_def)

lemma randomUUID_not_empty [simp]: "randomUUID e \<noteq> []"
  using length_randomUUID [of e] by auto

lemma randomUUID_not_inherited [simp]: "randomUUID e \<notin> set object_prototype_keys"
proof
  assume "randomUUID e \<in> set object_prototype_keys"
  then have "length (randomUUID e) \<in> length ` set object_prototype_keys" by (rule imageI)
  then show False by (simp add: length_randomUUID object_prototype_keys_def)
qed


lemma randomUUID_example2:
  "randomUUID (16 ^ 31 * 10 + 16 ^ 15 * 7 + 255) = ''a0000000-0000-4000-b000-0000000000ff''"
  by (simp add: randomUUID_def hex_digits_def hex_digit_def)



lemma length_hex_digits [simp]: "length (hex_digits e ps) = length ps"
  by (simp add: hex_digits_def)




lemma for_in_keys_example:
  "for_in_keys [(''b'', 0), (''10'', 1), (''9'', 2), (''a'', 3), (''01'', 4)] =
     [''9'', ''10'', ''b'', ''a'', ''01'']"
  by (simp add: for_in_keys_def is_array_index_def decimal_def)

lemma for_in_keys_abc: "for_in_keys [(''abc'', 0)] = [''abc'']"
  by (simp add: for_in_keys_def is_array_index_def)

lemma set_for_in_keys: "set (for_in_keys obj) = fst ` set obj"
  by (auto simp: for_in_keys_def)

subsection \<open>What the callbacks can change\<close>

lemma set_update_subset: "set (AList.update k v al) \<subseteq> insert (k, v) (set al)"
  by (induction al) auto

lemma set_delete_subset: "set (AList.delete k al) \<subseteq> set al"
  by (auto simp: AList.delete_eq)

lemma fst_handle_and_return [simp]:
  "fst (handle_and_return lib req v st) = fst (invoke_handleRequest lib req v st)"
  by (auto simp: handle_and_return_def split: prod.splits)

lemma fst_get_mcp:
  "fst (get_mcp lib st req) = st \<or>
   fst (get_mcp lib st req) =
     fst (invoke_handleRequest lib req
            (index_transports st (map_of (req_headers req) ''mcp-session-id'')) st)"
  by (auto simp: get_mcp_def Let_def split: prod.splits)

lemma fst_delete_mcp:
  "fst (delete_mcp lib st req) = st \<or>
   fst (delete_mcp lib st req) =
     fst (invoke_handleRequest lib req
            (index_transports st (map_of (req_headers req) ''mcp-session-id'')) st)"
  by (auto simp: delete_mcp_def Let_def split: prod.splits)

lemma heap_lib_step_length [simp]: "length (heap (lib_step t e st)) = length (heap st)"
  by (cases e)
     (auto simp: onsessioninitialized_def store_transport_def onclose_def delete_transport_def
           Let_def split: option.splits)

lemma heap_lib_run_length [simp]: "length (heap (lib_run t es st)) = length (heap st)"
  by (induction es arbitrary: st) auto

lemma trace_lib_step:
  "\<exists>cb. trace (lib_step t e st) = trace st @ cb \<and> list_all by_callback cb"
  by (cases e)
     (auto simp: onsessioninitialized_def store_transport_def onclose_def delete_transport_def
           Let_def split: option.splits)

lemma trace_lib_run:
  "\<exists>cb. trace (lib_run t es st) = trace st @ cb \<and> list_all by_callback cb"
proof (induction es arbitrary: st)
  case Nil
  then show ?case by simp
next
  case (Cons e es)
  obtain c1 where c1: "trace (lib_step t e st) = trace st @ c1" "list_all by_callback c1"
    using trace_lib_step by blast
  obtain c2 where c2: "trace (lib_run t es (lib_step t e st)) = trace (lib_step t e st) @ c2"
    "list_all by_callback c2"
    using Cons.IH by blast
  from c1 c2 show ?case by (intro exI [of _ "c1 @ c2"]) simp
qed

lemma handler_actions_lib_run:
  "handler_actions st0 (lib_run t es st) = handler_actions st0 st"
  if "length (trace st0) \<le> length (trace st)"
proof -
  obtain cb where cb: "trace (lib_run t es st) = trace st @ cb" "list_all by_callback cb"
    using trace_lib_run by blast
  have "filter (\<lambda>a. \<not> by_callback a) cb = []"
    using cb(2) by (induction cb) auto
  with cb(1) that show ?thesis by (simp add: handler_actions_def)
qed

lemma handler_actions_log:
  "handler_actions st (log a st) = (if by_callback a then [] else [a])"
  by (simp add: handler_actions_def log_def)



lemma lib_step_owner:
  assumes "t < length (heap st)" and "session_id_for (heap st ! t) = Some k"
  shows "session_id_for (heap (lib_step t e st) ! t) = Some k \<and>
         fst ` set (transports (lib_step t e st)) \<subseteq> insert k (fst ` set (transports st))"
proof (cases e)
  case Teardown
  then show ?thesis using assms AList.dom_delete_subset [of _ "transports st"]
    by (auto simp: onclose_def delete_transport_def Let_def split: option.splits)
next
  case (AssignSessionId r)
  then show ?thesis using assms
    by (auto simp: onsessioninitialized_def store_transport_def Let_def AList.dom_update
          session_id_for_def split: option.splits idgen.splits)
qed

lemma lib_run_owner:
  assumes "t < length (heap st)" and "session_id_for (heap st ! t) = Some k"
  shows "fst ` set (transports (lib_run t es st)) \<subseteq> insert k (fst ` set (transports st))"
  using assms
proof (induction es arbitrary: st)
  case Nil
  then show ?case by auto
next
  case (Cons e es)
  from lib_step_owner [OF Cons.prems, of e]
  have 1: "session_id_for (heap (lib_step t e st) ! t) = Some k"
    and 2: "fst ` set (transports (lib_step t e st)) \<subseteq> insert k (fst ` set (transports st))"
    by auto
  have "t < length (heap (lib_step t e st))" using Cons.prems by simp
  from Cons.IH [OF this 1] 2 show ?case by auto
qed

lemma lib_step_unchanged:
  assumes "t < length (heap st)" and "session_id_for (heap st ! t) = Some k"
    and "map_of (transports st) k = Some t" and "e \<noteq> Teardown"
  shows "session_id_for (heap (lib_step t e st) ! t) = Some k \<and>
         transports (lib_step t e st) = transports st"
  using assms
  by (cases e)
     (auto simp: onsessioninitialized_def store_transport_def Let_def AList.update_triv
        session_id_for_def split: option.splits idgen.splits)

lemma lib_run_unchanged:
  assumes "t < length (heap st)" and "session_id_for (heap st ! t) = Some k"
    and "map_of (transports st) k = Some t" and "Teardown \<notin> set es"
  shows "transports (lib_run t es st) = transports st"
  using assms
proof (induction es arbitrary: st)
  case Nil
  then show ?case by simp
next
  case (Cons e es)
  then have ne: "e \<noteq> Teardown" and rest: "Teardown \<notin> set es" by auto
  from lib_step_unchanged [OF Cons.prems(1-3) ne]
  have 1: "session_id_for (heap (lib_step t e st) ! t) = Some k"
    and 2: "transports (lib_step t e st) = transports st" by auto
  have 3: "t < length (heap (lib_step t e st))" using Cons.prems by simp
  from Cons.IH [OF 3 1 _ rest] 2 Cons.prems(3) show ?case by simp
qed

lemma lib_step_other:
  assumes "t < length (heap st)" and "session_id_for (heap st ! t) = Some k1" and "k \<noteq> k1"
  shows "map_of (transports (lib_step t e st)) k = map_of (transports st) k"
  using assms
  by (cases e)
     (auto simp: onsessioninitialized_def store_transport_def onclose_def delete_transport_def
        session_id_of_def session_id_for_def Let_def AList.update_conv' AList.delete_conv'
        split: option.splits idgen.splits)

lemma lib_run_other:
  assumes "t < length (heap st)" and "session_id_for (heap st ! t) = Some k1" and "k \<noteq> k1"
  shows "map_of (transports (lib_run t es st)) k = map_of (transports st) k"
  using assms
proof (induction es arbitrary: st)
  case Nil
  show ?case by simp
next
  case (Cons e es)
  have 1: "session_id_for (heap (lib_step t e st) ! t) = Some k1"
    using lib_step_owner [OF Cons.prems(1,2), of e] by simp
  have 2: "t < length (heap (lib_step t e st))" using Cons.prems(1) by simp
  from Cons.IH [OF 2 1 Cons.prems(3)] lib_step_other [OF Cons.prems, of e]
  show ?case by simp
qed

subsection \<open>Key consistency is an invariant\<close>

lemma key_consistent_lib_step: "key_consistent st \<Longrightarrow> key_consistent (lib_step t e st)"
proof (cases e)
  case Teardown
  assume "key_consistent st"
  then show ?thesis using Teardown set_delete_subset [of _ "transports st"]
    by (fastforce simp: key_consistent_def onclose_def delete_transport_def Let_def split: option.splits)
next
  case (AssignSessionId r)
  assume kc: "key_consistent st"
  show ?thesis
  proof (cases "t < length (heap st) \<and> sessionId (heap st ! t) = None")
    case False
    then show ?thesis using kc AssignSessionId by (auto split: option.splits)
  next
    case True
    define sid where "sid = generate (sessionIdGenerator (heap st ! t)) r"
    define h' where "h' = (heap st)[t := (heap st ! t)\<lparr>sessionId := Some sid\<rparr>]"
    have st': "lib_step t e st =
        st\<lparr>heap := h', transports := AList.update sid t (transports st),
           trace := trace st @ [Put Callback sid t]\<rparr>"
      using True AssignSessionId
      by (simp add: onsessioninitialized_def store_transport_def sid_def h'_def Let_def)
    have "t' < length h' \<and> session_id_for (h' ! t') = Some k"
      if "(k, t') \<in> set (AList.update sid t (transports st))" for k t'
    proof (cases "(k, t') = (sid, t)")
      case True
      then show ?thesis using \<open>t < length (heap st) \<and> _\<close>
        by (simp add: h'_def session_id_for_def)
    next
      case False
      with that set_update_subset [of sid t "transports st"]
      have mem: "(k, t') \<in> set (transports st)" by auto
      with kc have old: "t' < length (heap st)" "session_id_for (heap st ! t') = Some k"
        by (auto simp: key_consistent_def)
      show ?thesis
      proof (cases "t' = t")
        case True
        with old \<open>t < length (heap st) \<and> sessionId (heap st ! t) = None\<close>
        have "sessionIdGenerator (heap st ! t) = ProvidedId k"
          by (auto simp: session_id_for_def split: idgen.splits)
        then have "sid = k" by (simp add: sid_def)
        with True old show ?thesis by (simp add: h'_def session_id_for_def)
      next
        case False
        with old show ?thesis by (simp add: h'_def)
      qed
    qed
    then show ?thesis unfolding st' key_consistent_def by auto
  qed
qed

lemma key_consistent_lib_run: "key_consistent st \<Longrightarrow> key_consistent (lib_run t es st)"
  by (induction es arbitrary: st) (auto intro: key_consistent_lib_step)

lemma key_consistent_log [simp]: "key_consistent (log a st) = key_consistent st"
  by (simp add: key_consistent_def log_def)

lemma key_consistent_new_transport:
  "key_consistent st \<Longrightarrow> key_consistent (snd (new_transport g st))"
  by (fastforce simp: key_consistent_def new_transport_def nth_append)

lemma key_consistent_delete:
  "key_consistent st \<Longrightarrow> key_consistent (delete_transport by k st)"
  using set_delete_subset [of k "transports st"]
  by (fastforce simp: key_consistent_def delete_transport_def)

lemma key_consistent_store_new:
  "key_consistent st \<Longrightarrow>
   key_consistent (store_transport by s (length (heap st)) (log a (snd (new_transport (ProvidedId s) st))))"
  using set_update_subset [of s "length (heap st)" "transports st"]
  by (fastforce simp: key_consistent_def store_transport_def log_def new_transport_def
        nth_append session_id_for_def)

lemma key_consistent_invoke:
  "key_consistent st \<Longrightarrow> key_consistent (fst (invoke_handleRequest lib req v st))"
  by (cases v) (auto simp: Let_def intro: key_consistent_lib_run)

lemma key_consistent_handle_and_return:
  "key_consistent st \<Longrightarrow> key_consistent (fst (handle_and_return lib req v st))"
  using key_consistent_invoke [of st lib req v]
  by (auto simp: handle_and_return_def split: prod.splits)

lemma key_consistent_post:
  assumes "key_consistent st"
  shows "key_consistent (fst (post_mcp lib st req))"
proof -
  have init: "key_consistent (fst (post_initialize lib st req))"
    using key_consistent_new_transport [OF assms, of RandomUUID]
      key_consistent_invoke [of "log (Connect (length (heap st))) (snd (new_transport RandomUUID st))" lib req "Ref (length (heap st))"]
    by (auto simp: post_initialize_def Let_def new_transport_def split: prod.splits)
  have prov: "key_consistent (fst (post_provided lib st req s))" for s
    using key_consistent_new_transport [OF assms, of "ProvidedId s"]
      key_consistent_handle_and_return [OF key_consistent_store_new [OF assms], of lib req "Ref (length (heap st))" Handler s "Connect (length (heap st))"]
    by (auto simp: post_provided_def new_transport_def split: prod.splits)
  show ?thesis
    using assms init prov key_consistent_handle_and_return [OF assms]
    by (auto simp: post_mcp_def Let_def split: option.splits)
qed

lemma key_consistent_get:
  "key_consistent st \<Longrightarrow> key_consistent (fst (get_mcp lib st req))"
  using fst_get_mcp [of lib st req] key_consistent_invoke [of st lib req] by auto

lemma key_consistent_delete_mcp:
  "key_consistent st \<Longrightarrow> key_consistent (fst (delete_mcp lib st req))"
  using fst_delete_mcp [of lib st req] key_consistent_invoke [of st lib req] by auto

lemma key_consistent_env_run:
  "key_consistent st \<Longrightarrow> key_consistent (env_run env st)"
proof (induction env arbitrary: st)
  case Nil
  then show ?case by simp
next
  case (Cons a env)
  then show ?case
    by (cases a)
       (auto intro: key_consistent_post key_consistent_get key_consistent_delete_mcp
          key_consistent_lib_step)
qed

lemma key_consistent_close_session:
  "key_consistent st \<Longrightarrow> key_consistent (close_session lib env k st)"
  by (auto simp: close_session_def Let_def split: option.splits
      intro!: key_consistent_delete key_consistent_env_run key_consistent_lib_run)

lemma key_consistent_close_sessions:
  "key_consistent st \<Longrightarrow> key_consistent (close_sessions lib ks envs st)"
  by (induction lib ks envs st rule: close_sessions.induct)
     (auto intro: key_consistent_close_session)

lemma reachable_key_consistent: "reachable st \<Longrightarrow> key_consistent st"
proof (induction rule: reachable.induct)
  case start
  show ?case by (simp add: key_consistent_def initial_def)
next
  case (shutdown st lib envs)
  then show ?case by (simp add: gracefulShutdown_def key_consistent_close_sessions)
qed (auto intro: key_consistent_post key_consistent_get key_consistent_delete_mcp
       key_consistent_close_session key_consistent_store_new key_consistent_lib_step)

lemma key_consistentD:
  "key_consistent st \<Longrightarrow> map_of (transports st) k = Some t \<Longrightarrow>
   t < length (heap st) \<and> session_id_for (heap st ! t) = Some k"
  by (auto simp: key_consistent_def dest!: map_of_SomeD)

text \<open>
  Only plain keys are ever stored: the ids of all transports are plain in every
  reachable state, and with key consistency so are the keys of \<^verbatim>\<open>transports\<close>.
\<close>

lemma ids_plain_frame [simp]:
  "ids_plain (log a st) = ids_plain st"
  "ids_plain (store_transport who k u st) = ids_plain st"
  "ids_plain (delete_transport who k st) = ids_plain st"
  by (simp_all add: ids_plain_def log_def store_transport_def delete_transport_def)

lemma ids_plain_new_random: "ids_plain st \<Longrightarrow> ids_plain (snd (new_transport RandomUUID st))"
  by (auto simp: ids_plain_def new_transport_def session_id_for_def)

lemma ids_plain_new_provided:
  "ids_plain st \<Longrightarrow> plain_key s \<Longrightarrow> ids_plain (snd (new_transport (ProvidedId s) st))"
  by (auto simp: ids_plain_def new_transport_def session_id_for_def)

lemma ids_plain_lib_step: "ids_plain st \<Longrightarrow> ids_plain (lib_step t e st)"
proof (cases e)
  case Teardown
  assume "ids_plain st"
  then show ?thesis using Teardown
    by (simp add: onclose_def Let_def split: option.splits)
next
  case (AssignSessionId r)
  assume ip: "ids_plain st"
  show ?thesis
  proof (cases "t < length (heap st) \<and> sessionId (heap st ! t) = None")
    case False
    then show ?thesis using ip AssignSessionId by (auto split: option.splits)
  next
    case True
    define sid where "sid = generate (sessionIdGenerator (heap st ! t)) r"
    have mem: "heap st ! t \<in> set (heap st)" using True by simp
    have "plain_key sid"
    proof (cases "sessionIdGenerator (heap st ! t)")
      case RandomUUID
      then show ?thesis by (simp add: sid_def plain_key_def)
    next
      case (ProvidedId s)
      with True have "session_id_for (heap st ! t) = Some s"
        by (simp add: session_id_for_def)
      with ip mem have "plain_key s" by (auto simp: ids_plain_def)
      with ProvidedId show ?thesis by (simp add: sid_def)
    qed
    then have "ids_plain (st\<lparr>heap := (heap st)[t := (heap st ! t)\<lparr>sessionId := Some sid\<rparr>]\<rparr>)"
      using ip True
      by (auto simp: ids_plain_def session_id_for_def dest!: set_update_subset_insert [THEN subsetD])
    then show ?thesis
      using True AssignSessionId
      by (simp add: onsessioninitialized_def sid_def Let_def)
  qed
qed

lemma ids_plain_lib_run: "ids_plain st \<Longrightarrow> ids_plain (lib_run t es st)"
  by (induction es arbitrary: st) (auto intro: ids_plain_lib_step)

lemma ids_plain_invoke:
  "ids_plain st \<Longrightarrow> ids_plain (fst (invoke_handleRequest lib req v st))"
  by (cases v) (auto simp: Let_def intro!: ids_plain_lib_run)

lemma falsy_plain: "s \<noteq> [] \<Longrightarrow> \<not> truthy (get_property obj s) \<Longrightarrow> plain_key s"
  by (auto simp: plain_key_def get_property_def split: option.splits if_splits)

lemma ids_plain_post:
  assumes "ids_plain st"
  shows "ids_plain (fst (post_mcp lib st req))"
proof -
  let ?n = "length (heap st)"
  have "ids_plain (fst (invoke_handleRequest lib req (Ref ?n)
           (log (Connect ?n) (snd (new_transport RandomUUID st)))))"
    by (intro ids_plain_invoke) (simp add: ids_plain_new_random [OF assms])
  with ids_plain_new_random [OF assms]
  have init: "ids_plain (fst (post_initialize lib st req))"
    by (auto simp: post_initialize_def Let_def new_transport_def split: prod.splits)
  have prov: "ids_plain (fst (post_provided lib st req s))" if "plain_key s" for s
  proof -
    have new: "ids_plain (snd (new_transport (ProvidedId s) st))"
      using that by (intro ids_plain_new_provided [OF assms])
    then have "ids_plain (fst (invoke_handleRequest lib req (Ref ?n)
        (store_transport Handler s ?n (log (Connect ?n) (snd (new_transport (ProvidedId s) st))))))"
      by (intro ids_plain_invoke) simp
    with new show ?thesis
      by (auto simp: post_provided_def new_transport_def split: prod.splits)
  qed
  show ?thesis
    using assms init prov ids_plain_invoke [OF assms] falsy_plain
    by (auto simp: post_mcp_def Let_def split: option.splits)
qed

lemma ids_plain_get: "ids_plain st \<Longrightarrow> ids_plain (fst (get_mcp lib st req))"
  using fst_get_mcp [of lib st req] ids_plain_invoke [of st lib req] by auto

lemma ids_plain_delete_mcp: "ids_plain st \<Longrightarrow> ids_plain (fst (delete_mcp lib st req))"
  using fst_delete_mcp [of lib st req] ids_plain_invoke [of st lib req] by auto

lemma ids_plain_env_run: "ids_plain st \<Longrightarrow> ids_plain (env_run env st)"
proof (induction env arbitrary: st)
  case Nil
  then show ?case by simp
next
  case (Cons a env)
  then show ?case
    by (cases a)
       (auto intro: ids_plain_post ids_plain_get ids_plain_delete_mcp ids_plain_lib_step)
qed

lemma ids_plain_close_session: "ids_plain st \<Longrightarrow> ids_plain (close_session lib env k st)"
  by (auto simp: close_session_def Let_def split: option.splits
      intro!: ids_plain_env_run ids_plain_lib_run)

lemma ids_plain_close_sessions: "ids_plain st \<Longrightarrow> ids_plain (close_sessions lib ks envs st)"
  by (induction lib ks envs st rule: close_sessions.induct)
     (auto intro: ids_plain_close_session)

lemma reachable_ids_plain: "reachable st \<Longrightarrow> ids_plain st"
proof (induction rule: reachable.induct)
  case start
  show ?case by (simp add: ids_plain_def initial_def)
next
  case (shutdown st lib envs)
  then show ?case by (simp add: gracefulShutdown_def ids_plain_close_sessions)
next
  case (inserted st s)
  then show ?case by (simp add: ids_plain_new_provided falsy_plain)
qed (auto intro: ids_plain_post ids_plain_get ids_plain_delete_mcp
       ids_plain_close_session ids_plain_lib_step)

lemma reachable_keys_plain:
  assumes "reachable st" and "(k, t) \<in> set (transports st)"
  shows "plain_key k"
proof -
  from reachable_key_consistent [OF assms(1)] assms(2)
  have "t < length (heap st)" "session_id_for (heap st ! t) = Some k"
    by (auto simp: key_consistent_def)
  moreover from this have "heap st ! t \<in> set (heap st)" by simp
  ultimately show ?thesis
    using reachable_ids_plain [OF assms(1)] by (auto simp: ids_plain_def)
qed

text \<open>
  The sample states, evaluated.
\<close>

lemma after_abc_eq:
  "after_abc =
     \<lparr>transports = [(''abc'', 0)],
      heap = [\<lparr>sessionIdGenerator = ProvidedId ''abc'', sessionId = None\<rparr>],
      trace = [Construct 0 (ProvidedId ''abc''), Connect 0, Put Handler ''abc'' 0,
               HandleRequest 0]\<rparr>"
  by (simp add: after_abc_def handler_defs sample_defs)

lemma reachable_after_abc: "reachable after_abc"
  unfolding after_abc_def by (rule reachable.post [OF reachable.start])

lemma after_initialize_eq:
  "after_initialize =
     \<lparr>transports = [(randomUUID 5, 0)],
      heap = [\<lparr>sessionIdGenerator = RandomUUID, sessionId = Some (randomUUID 5)\<rparr>],
      trace = [Construct 0 RandomUUID, Connect 0, HandleRequest 0,
               Put Callback (randomUUID 5) 0]\<rparr>"
  by (simp add: after_initialize_def handler_defs sample_defs)

lemma reachable_after_initialize: "reachable after_initialize"
  unfolding after_initialize_def by (rule reachable.post [OF reachable.start])

lemma reachable_inserted_abc: "reachable inserted_abc"
proof -
  have "reachable (store_transport Handler ''abc'' (length (heap initial))
          (log (Connect (length (heap initial)))
             (snd (new_transport (ProvidedId ''abc'') initial))))"
    by (rule reachable.inserted [OF reachable.start])
       (simp_all add: get_property_def initial_def object_prototype_keys_def)
  then show ?thesis by (simp add: inserted_abc_def initial_def)
qed



lemma reachable_after_uuid_token: "reachable after_uuid_token"
  unfolding after_uuid_token_def by (rule reachable.post [OF reachable.start])

text \<open>
  C9. In every reachable state, the one right after the direct insertion of case 3
  included, every key of \<^verbatim>\<open>transports\<close> is the session id of the transport stored
  under it: it equals the transport's \<^verbatim>\<open>sessionId\<close> field once the library has
  assigned the field, and while the field is unassigned the transport is one that case 3
  constructed for exactly this key (its generator returns the key).
\<close>

theorem registry_keys_consistent:
  assumes "reachable st" and "map_of (transports st) k = Some t"
  shows "t < length (heap st) \<and>
         (case sessionId (heap st ! t) of
            Some s \<Rightarrow> s = k
          | None \<Rightarrow> sessionIdGenerator (heap st ! t) = ProvidedId k)"
  using key_consistentD [OF reachable_key_consistent [OF assms(1)] assms(2)]
  by (auto simp: session_id_for_def split: option.splits idgen.splits)

theorem registry_keys_consistent_witness:
  "map_of (transports inserted_abc) ''abc'' = Some 0 \<and>
   0 < length (heap inserted_abc) \<and>
   sessionId (heap inserted_abc ! 0) = None \<and>
   sessionIdGenerator (heap inserted_abc ! 0) = ProvidedId ''abc''"
  using registry_keys_consistent [OF reachable_inserted_abc, of "''abc''" 0]
  by (simp add: inserted_abc_def store_transport_def log_def new_transport_def initial_def)

subsection \<open>Case 1: a session id that \<^verbatim>\<open>transports\<close> has\<close>

text \<open>
  C1. In every reachable state, a POST to \<^verbatim>\<open>/mcp\<close> whose \<^verbatim>\<open>mcp-session-id\<close>
  header is a key of \<^verbatim>\<open>transports\<close> is handled by the transport stored under that key
  (a key is never the empty string, so the header is truthy): the only action
  of the handler itself is the call of \<^verbatim>\<open>handleRequest\<close> on that transport, so it
  constructs no transport (the heap keeps its length) and writes nothing to
  \<^verbatim>\<open>transports\<close>. The library call can change \<^verbatim>\<open>transports\<close> only through the
  close callback: when it fires none, \<^verbatim>\<open>transports\<close> is after the request what it was
  before.
\<close>

theorem post_existing_session_reused:
  assumes "reachable st"
    and "map_of (req_headers req) ''mcp-session-id'' = Some s"
    and "map_of (transports st) s = Some t"
  shows "handler_actions st (fst (post_mcp lib st req)) = [HandleRequest t] \<and>
         length (heap (fst (post_mcp lib st req))) = length (heap st) \<and>
         (Teardown \<notin> set (events (handleRequest lib t req)) \<longrightarrow>
            transports (fst (post_mcp lib st req)) = transports st)"
proof -
  have ne: "s \<noteq> []"
    using reachable_keys_plain [OF assms(1) map_of_SomeD [OF assms(3)]]
    by (simp add: plain_key_def)
  have run: "fst (post_mcp lib st req) =
               lib_run t (events (handleRequest lib t req)) (log (HandleRequest t) st)"
    using assms(2,3) ne by (simp add: post_mcp_def get_property_def Let_def)
  have t: "t < length (heap st)" "session_id_for (heap st ! t) = Some s"
    using key_consistentD [OF reachable_key_consistent [OF assms(1)] assms(3)] by auto
  have 1: "handler_actions st (fst (post_mcp lib st req)) = [HandleRequest t]"
    unfolding run by (simp add: handler_actions_lib_run log_def handler_actions_log [unfolded log_def])
  have 2: "length (heap (fst (post_mcp lib st req))) = length (heap st)"
    unfolding run by (simp add: log_def)
  have 3: "transports (fst (post_mcp lib st req)) = transports st"
    if "Teardown \<notin> set (events (handleRequest lib t req))"
    unfolding run
    using lib_run_unchanged [of t "log (HandleRequest t) st" s, OF _ _ _ that] t assms(3)
    by (simp add: log_def)
  from 1 2 3 show ?thesis by blast
qed

theorem post_existing_session_reused_witness:
  "handler_actions after_abc (fst (post_mcp (sample_library 5) after_abc abc_request)) =
     [HandleRequest 0] \<and>
   length (heap (fst (post_mcp (sample_library 5) after_abc abc_request))) =
     length (heap after_abc) \<and>
   transports (fst (post_mcp (sample_library 5) after_abc abc_request)) = transports after_abc"
  using post_existing_session_reused [OF reachable_after_abc, of abc_request "''abc''" 0
      "sample_library 5"]
  by (simp add: after_abc_eq sample_defs)

subsection \<open>Case 4: no session id and no initialize message\<close>

text \<open>
  C2. A POST to \<^verbatim>\<open>/mcp\<close> whose \<^verbatim>\<open>mcp-session-id\<close> header is absent (or empty, which
  the handler treats alike) and whose body is not an initialize message is answered with
  status 400 and the JSON-RPC error object with code \<open>-32000\<close> and message
  \<^verbatim>\<open>Bad Request: No valid session ID provided\<close>, \<^verbatim>\<open>id\<close> null. The server state is
  returned as it was: no transport is constructed and \<^verbatim>\<open>transports\<close> is untouched.
\<close>

theorem post_without_session_rejected:
  assumes "\<not> truthy_header (map_of (req_headers req) ''mcp-session-id'')"
    and "\<not> isInitializeRequest lib (req_body req)"
  shows "post_mcp lib st req =
           (st, \<lparr>status = Some 400,
                 body = Some (JsonBody (JObj
                   [(''jsonrpc'', JStr ''2.0''),
                    (''error'', JObj [(''code'', JNum (- 32000)),
                       (''message'', JStr ''Bad Request: No valid session ID provided'')]),
                    (''id'', JNull)])),
                 out_headers = [], respond = True\<rparr>)"
  using assms by (simp add: post_mcp_def bad_request_def ctx0_def jsonrpc_error_def)

theorem post_without_session_rejected_witness:
  "post_mcp (sample_library 5) initial (tool_request []) =
     (initial, \<lparr>status = Some 400,
                 body = Some (JsonBody (JObj
                   [(''jsonrpc'', JStr ''2.0''),
                    (''error'', JObj [(''code'', JNum (- 32000)),
                       (''message'', JStr ''Bad Request: No valid session ID provided'')]),
                    (''id'', JNull)])),
                 out_headers = [], respond = True\<rparr>)"
  using post_without_session_rejected [of "tool_request []" "sample_library 5" initial]
  by (simp add: tool_request_def sample_library_def is_initialize_message_def)

subsection \<open>Case 3: a session id that \<^verbatim>\<open>transports\<close> does not have\<close>

text \<open>
  C3. The handler decides between case 1 and case 3 by the truth value of
  \<^verbatim>\<open>transports[sessionId]\<close>, and for a session id that names a property of
  \<^verbatim>\<open>Object.prototype\<close> the read finds the inherited property. A POST with the unknown
  session id \<^verbatim>\<open>constructor\<close> is therefore not routed to case 3: no transport is
  constructed and nothing is inserted; the handler takes case 1 with the inherited value,
  the call of \<^verbatim>\<open>handleRequest\<close> on it throws, and the answer is status 500 with the
  JSON-RPC error \<open>-32603\<close>.
\<close>

theorem post_inherited_name_no_session:
  "post_mcp lib initial inherited_name_request =
     (initial, \<lparr>status = Some 500,
                body = Some (JsonBody (JObj
                   [(''jsonrpc'', JStr ''2.0''),
                    (''error'', JObj [(''code'', JNum (- 32603)),
                       (''message'', JStr ''Internal server error'')]),
                    (''id'', JNull)])),
                out_headers = [], respond = True\<rparr>)"
  by (simp add: handler_defs inherited_name_request_def tool_request_def initial_def)

theorem post_inherited_name_no_session_witness:
  "map_of (transports initial) ''constructor'' = None \<and>
   heap (fst (post_mcp (sample_library 5) initial inherited_name_request)) = [] \<and>
   transports (fst (post_mcp (sample_library 5) initial inherited_name_request)) = [] \<and>
   status (snd (post_mcp (sample_library 5) initial inherited_name_request)) = Some 500"
  using post_inherited_name_no_session [of "sample_library 5"]
  by (simp add: initial_def)

text \<open>
  For a session id that is plain and is not a key of \<^verbatim>\<open>transports\<close>, the handler
  constructs a transport whose generator returns the client's id, connects it, stores it
  under that id and only then calls \<^verbatim>\<open>handleRequest\<close> on it.
\<close>

lemma post_provided_session:
  assumes "map_of (req_headers req) ''mcp-session-id'' = Some s" and "s \<noteq> []"
    and "map_of (transports st) s = None" and "s \<notin> set object_prototype_keys"
    and "\<not> connect_raises lib (length (heap st))"
  shows "handler_actions st (fst (post_mcp lib st req)) =
           [Construct (length (heap st)) (ProvidedId s), Connect (length (heap st)),
            Put Handler s (length (heap st)), HandleRequest (length (heap st))] \<and>
         length (heap (fst (post_mcp lib st req))) = Suc (length (heap st)) \<and>
         sessionIdGenerator (heap (fst (post_mcp lib st req)) ! length (heap st)) = ProvidedId s"
proof -
  let ?n = "length (heap st)"
  let ?s2 = "store_transport Handler s ?n (log (Connect ?n) (snd (new_transport (ProvidedId s) st)))"
  have run: "fst (post_mcp lib st req) =
               lib_run ?n (events (handleRequest lib ?n req)) (log (HandleRequest ?n) ?s2)"
    using assms
    by (simp add: post_mcp_def post_provided_def get_property_def Let_def new_transport_def)
  have gen: "sessionIdGenerator (heap (lib_run ?n es st') ! ?n) = sessionIdGenerator (heap st' ! ?n)"
    for es st'
  proof (induction es arbitrary: st')
    case Nil
    show ?case by simp
  next
    case (Cons e es)
    have "sessionIdGenerator (heap (lib_step ?n e st') ! ?n) = sessionIdGenerator (heap st' ! ?n)"
      by (cases e)
         (auto simp: onsessioninitialized_def store_transport_def onclose_def
            delete_transport_def Let_def split: option.splits)
    with Cons show ?case by simp
  qed
  have "handler_actions st (fst (post_mcp lib st req)) =
          handler_actions st (log (HandleRequest ?n) ?s2)"
    unfolding run
    by (rule handler_actions_lib_run) (simp add: log_def store_transport_def new_transport_def)
  then have 1: "handler_actions st (fst (post_mcp lib st req)) =
           [Construct ?n (ProvidedId s), Connect ?n, Put Handler s ?n, HandleRequest ?n]"
    by (simp add: handler_actions_def log_def store_transport_def new_transport_def)
  have 2: "length (heap (fst (post_mcp lib st req))) = Suc ?n"
    unfolding run by (simp add: log_def store_transport_def new_transport_def)
  have 3: "sessionIdGenerator (heap (fst (post_mcp lib st req)) ! ?n) = ProvidedId s"
    unfolding run gen by (simp add: log_def store_transport_def new_transport_def)
  from 1 2 3 show ?thesis by simp
qed

subsection \<open>Case 2: an initialize message without session id\<close>




subsection \<open>Who inserts into \<^verbatim>\<open>transports\<close>\<close>

lemma put_count_log [simp]:
  "put_count b t (log a st) = (if is_put b t a then 1 else 0) + put_count b t st"
  by (simp add: put_count_def log_def)

lemma put_count_store [simp]:
  "put_count b t (store_transport by k u st) =
     (if b = by \<and> u = t then 1 else 0) + put_count b t st"
  by (simp add: put_count_def store_transport_def)

lemma put_count_delete [simp]: "put_count b t (delete_transport by k st) = put_count b t st"
  by (simp add: put_count_def delete_transport_def)

lemma put_count_new [simp]: "put_count b t (snd (new_transport g st)) = put_count b t st"
  by (simp add: put_count_def new_transport_def)

lemma put_count_heap [simp]: "put_count b t (st\<lparr>heap := h\<rparr>) = put_count b t st"
  by (simp add: put_count_def)

lemma session_id_of_frame [simp]:
  "session_id_of (log a st) t = session_id_of st t"
  "session_id_of (store_transport by k u st) t = session_id_of st t"
  "session_id_of (delete_transport by k st) t = session_id_of st t"
  "session_id_of (snd (new_transport g st)) t = session_id_of st t"
  by (auto simp: session_id_of_def log_def store_transport_def delete_transport_def
        new_transport_def nth_append)

lemma provided_frame [simp]:
  "provided (log a st) t = provided st t"
  "provided (store_transport by k u st) t = provided st t"
  "provided (delete_transport by k st) t = provided st t"
  "provided (snd (new_transport g st)) t =
     (provided st t \<or> (t = length (heap st) \<and> g \<noteq> RandomUUID))"
  by (auto simp: provided_def log_def store_transport_def delete_transport_def
        new_transport_def nth_append)

lemma connected_frame [simp]:
  "connected (log a st) t = (a = Connect t \<or> connected st t)"
  "connected (store_transport by k u st) t = connected st t"
  "connected (delete_transport by k st) t = connected st t"
  "connected (snd (new_transport g st)) t = connected st t"
  "connected (st\<lparr>heap := h\<rparr>) t = connected st t"
  by (auto simp: connected_def log_def store_transport_def delete_transport_def
        new_transport_def)

lemma length_heap_frame [simp]:
  "length (heap (log a st)) = length (heap st)"
  "length (heap (store_transport by k u st)) = length (heap st)"
  "length (heap (delete_transport by k st)) = length (heap st)"
  "length (heap (snd (new_transport g st))) = Suc (length (heap st))"
  by (simp_all add: log_def store_transport_def delete_transport_def new_transport_def)

lemma puts_ok_log:
  "\<forall>by k u. a \<noteq> Put by k u \<Longrightarrow> \<forall>u. a \<noteq> Connect u \<Longrightarrow> puts_ok (log a st) t = puts_ok st t"
  by (cases a) (simp_all add: puts_ok_def)

lemma puts_ok_delete: "puts_ok (delete_transport by k st) t = puts_ok st t"
  by (simp add: puts_ok_def)

lemma puts_bounded_log:
  "puts_bounded st \<Longrightarrow> \<forall>by k u. a \<noteq> Put by k u \<Longrightarrow> \<forall>u. a \<noteq> Connect u \<Longrightarrow>
   puts_bounded (log a st)"
  by (simp add: puts_bounded_def puts_ok_log)

lemma puts_bounded_delete:
  "puts_bounded st \<Longrightarrow> puts_bounded (delete_transport by k st)"
  by (simp add: puts_bounded_def puts_ok_delete)

lemma fresh_unconnected:
  "puts_bounded st \<Longrightarrow> \<not> connected st (length (heap st)) \<and>
     put_count Handler (length (heap st)) st = 0"
  by (auto simp: puts_bounded_def puts_ok_def provided_def dest!: spec [of _ "length (heap st)"])

lemma fresh_unprovided:
  "\<not> provided st (length (heap st)) \<and> session_id_of st (length (heap st)) = None"
  by (simp add: provided_def session_id_of_def)

lemma puts_bounded_new:
  assumes "puts_bounded st"
  shows "puts_bounded (snd (new_transport g st))"
  unfolding puts_bounded_def
proof
  fix t
  have "puts_ok st t" using assms by (simp add: puts_bounded_def)
  then show "puts_ok (snd (new_transport g st)) t"
    using fresh_unconnected [OF assms] fresh_unprovided [of st]
    by (auto simp: puts_ok_def split: if_splits)
qed

lemma puts_bounded_connect_random:
  assumes "puts_bounded st"
  shows "puts_bounded (log (Connect (length (heap st))) (snd (new_transport RandomUUID st)))"
  unfolding puts_bounded_def
proof
  fix t
  have "puts_ok st t" using assms by (simp add: puts_bounded_def)
  then show "puts_ok (log (Connect (length (heap st))) (snd (new_transport RandomUUID st))) t"
    using fresh_unconnected [OF assms] fresh_unprovided [of st]
    by (auto simp: puts_ok_def split: if_splits)
qed

lemma puts_bounded_store_new:
  assumes "puts_bounded st"
  shows "puts_bounded (store_transport Handler s (length (heap st))
           (log (Connect (length (heap st))) (snd (new_transport (ProvidedId s) st))))"
  unfolding puts_bounded_def
proof
  fix t
  have "puts_ok st t" using assms by (simp add: puts_bounded_def)
  then show "puts_ok (store_transport Handler s (length (heap st))
           (log (Connect (length (heap st))) (snd (new_transport (ProvidedId s) st)))) t"
    using fresh_unconnected [OF assms] fresh_unprovided [of st]
    by (auto simp: puts_ok_def split: if_splits)
qed

lemma puts_bounded_lib_step:
  assumes "puts_bounded st"
  shows "puts_bounded (lib_step t e st)"
proof (cases e)
  case Teardown
  then show ?thesis using assms
    by (auto simp: onclose_def Let_def intro: puts_bounded_delete split: option.splits)
next
  case (AssignSessionId r)
  show ?thesis
  proof (cases "t < length (heap st) \<and> sessionId (heap st ! t) = None")
    case False
    then show ?thesis using assms AssignSessionId by (auto split: option.splits)
  next
    case True
    define sid where "sid = generate (sessionIdGenerator (heap st ! t)) r"
    define st1 where "st1 = st\<lparr>heap := (heap st)[t := (heap st ! t)\<lparr>sessionId := Some sid\<rparr>]\<rparr>"
    have eq: "lib_step t e st = store_transport Callback sid t st1"
      using True AssignSessionId
      by (simp add: onsessioninitialized_def sid_def st1_def Let_def)
    have zero: "put_count Callback t st = 0"
      using assms True
      by (auto simp: puts_bounded_def puts_ok_def session_id_of_def dest!: spec [of _ t])
    have sid1: "session_id_of st1 u = (if u = t then Some sid else session_id_of st u)" for u
      using True by (simp add: session_id_of_def st1_def)
    have prov1: "provided st1 u = provided st u" for u
      using True by (cases "u = t") (auto simp: provided_def st1_def)
    have cnt1: "put_count b u st1 = put_count b u st" for b u
      by (simp add: st1_def)
    have con1: "connected st1 u = connected st u" for u
      by (simp add: st1_def)
    have len1: "length (heap st1) = length (heap st)"
      by (simp add: st1_def)
    show ?thesis
      unfolding eq puts_bounded_def
    proof
      fix u
      have "puts_ok st u" using assms by (simp add: puts_bounded_def)
      then show "puts_ok (store_transport Callback sid t st1) u"
        using zero by (auto simp: puts_ok_def sid1 prov1 cnt1 con1 len1 split: if_splits)
    qed
  qed
qed

lemma puts_bounded_lib_run: "puts_bounded st \<Longrightarrow> puts_bounded (lib_run t es st)"
  by (induction es arbitrary: st) (auto intro: puts_bounded_lib_step)

lemma puts_bounded_invoke:
  "puts_bounded st \<Longrightarrow> puts_bounded (fst (invoke_handleRequest lib req v st))"
  by (cases v) (auto simp: Let_def intro!: puts_bounded_lib_run puts_bounded_log)

lemma puts_bounded_post:
  assumes "puts_bounded st"
  shows "puts_bounded (fst (post_mcp lib st req))"
proof -
  let ?n = "length (heap st)"
  have new: "puts_bounded (snd (new_transport g st))" for g
    by (rule puts_bounded_new [OF assms])
  have "puts_bounded (fst (invoke_handleRequest lib req (Ref ?n)
           (log (Connect ?n) (snd (new_transport RandomUUID st)))))"
    by (intro puts_bounded_invoke puts_bounded_connect_random assms)
  with new [of RandomUUID] have init: "puts_bounded (fst (post_initialize lib st req))"
    by (auto simp: post_initialize_def Let_def new_transport_def split: prod.splits)
  have prov: "puts_bounded (fst (post_provided lib st req s))" for s
    using new [of "ProvidedId s"]
      puts_bounded_invoke [OF puts_bounded_store_new [OF assms], of lib req "Ref ?n" s]
    by (auto simp: post_provided_def new_transport_def split: prod.splits)
  show ?thesis
    using assms init prov puts_bounded_invoke [OF assms]
    by (auto simp: post_mcp_def Let_def split: option.splits)
qed

lemma puts_bounded_get: "puts_bounded st \<Longrightarrow> puts_bounded (fst (get_mcp lib st req))"
  using fst_get_mcp [of lib st req] puts_bounded_invoke [of st lib req] by auto

lemma puts_bounded_delete_mcp:
  "puts_bounded st \<Longrightarrow> puts_bounded (fst (delete_mcp lib st req))"
  using fst_delete_mcp [of lib st req] puts_bounded_invoke [of st lib req] by auto

lemma puts_bounded_env_run: "puts_bounded st \<Longrightarrow> puts_bounded (env_run env st)"
proof (induction env arbitrary: st)
  case Nil
  then show ?case by simp
next
  case (Cons a env)
  then show ?case
    by (cases a)
       (auto intro: puts_bounded_post puts_bounded_get puts_bounded_delete_mcp
          puts_bounded_lib_step)
qed

lemma puts_bounded_close_session:
  "puts_bounded st \<Longrightarrow> puts_bounded (close_session lib env k st)"
  by (auto simp: close_session_def Let_def split: option.splits
      intro!: puts_bounded_delete puts_bounded_env_run puts_bounded_lib_run puts_bounded_log)

lemma puts_bounded_close_sessions:
  "puts_bounded st \<Longrightarrow> puts_bounded (close_sessions lib ks envs st)"
  by (induction lib ks envs st rule: close_sessions.induct)
     (auto intro: puts_bounded_close_session)

lemma reachable_puts_bounded: "reachable st \<Longrightarrow> puts_bounded st"
proof (induction rule: reachable.induct)
  case start
  show ?case
    by (simp add: puts_bounded_def puts_ok_def put_count_def connected_def provided_def
        session_id_of_def initial_def)
next
  case (shutdown st lib envs)
  then show ?case by (simp add: gracefulShutdown_def puts_bounded_close_sessions)
qed (auto intro: puts_bounded_post puts_bounded_get puts_bounded_delete_mcp
       puts_bounded_close_session puts_bounded_store_new puts_bounded_lib_step)

text \<open>
  C5, amended. In every reachable state each transport has been stored in
  \<^verbatim>\<open>transports\<close> by its \<^verbatim>\<open>onsessioninitialized\<close> callback exactly once if the
  library has assigned its session id, and not at all before that; it has been stored
  directly by the request handler exactly once if it was constructed in case 3 and
  connected (the handler stores it right after \<^verbatim>\<open>connect\<close>), and not at all otherwise,
  so never when it was constructed for an initialize message (case 2); and it has never
  been stored by the shutdown loop.
\<close>

theorem registry_insertions_per_session:
  assumes "reachable st"
  shows "put_count Callback t st = (if session_id_of st t = None then 0 else 1) \<and>
         put_count Handler t st =
           (if t < length (heap st) \<and> sessionIdGenerator (heap st ! t) \<noteq> RandomUUID \<and>
               Connect t \<in> set (trace st)
            then 1 else 0) \<and>
         put_count Shutdown t st = 0"
proof -
  from reachable_puts_bounded [OF assms] have "puts_ok st t"
    by (simp add: puts_bounded_def)
  then show ?thesis by (simp add: puts_ok_def provided_def connected_def)
qed

theorem registry_insertions_per_session_witness:
  "put_count Callback 0 after_initialize = 1 \<and> put_count Handler 0 after_initialize = 0 \<and>
   put_count Shutdown 0 after_initialize = 0"
  using registry_insertions_per_session [OF reachable_after_initialize, of 0]
  by (simp add: after_initialize_eq session_id_of_def)

text \<open>
  As stated (one insertion per session, always from the callback) the property fails: a
  POST that carries the unknown session id \<^verbatim>\<open>abc\<close> and an initialize message has its
  transport stored twice, first by the handler in case 3 and then by the callback.
\<close>

theorem insertion_from_handler_counterexample:
  "put_count Handler 0 (fst (post_mcp (sample_library 5) initial abc_initialize_request)) = 1 \<and>
   put_count Callback 0 (fst (post_mcp (sample_library 5) initial abc_initialize_request)) = 1"
  by (simp add: put_count_def handler_defs sample_defs abc_initialize_request_def)

subsection \<open>The shutdown loop\<close>

text \<open>
  Whatever is served while a turn is suspended is tracked by the log.
\<close>

lemma tracked_same:
  assumes "transports st' = transports st" and "trace st' = trace st @ tr"
  shows "tracked st st'"
  unfolding tracked_def using assms by (intro exI [of _ tr]) simp

lemma tracked_refl: "tracked st st"
  by (rule tracked_same [of _ _ "[]"]) simp_all

lemma tracked_trans:
  assumes "tracked a b" and "tracked b c"
  shows "tracked a c"
proof -
  from assms(1) obtain t1 where
    1: "trace b = trace a @ t1"
    and p1: "\<And>k t. map_of (transports b) k = Some t \<Longrightarrow>
               map_of (transports a) k = Some t \<or> (\<exists>who. Put who k t \<in> set t1)"
    and c1: "\<And>k. map_of (transports b) k \<noteq> map_of (transports a) k \<Longrightarrow>
               \<exists>x \<in> set t1. touches k x"
    unfolding tracked_def by blast
  from assms(2) obtain t2 where
    2: "trace c = trace b @ t2"
    and p2: "\<And>k t. map_of (transports c) k = Some t \<Longrightarrow>
               map_of (transports b) k = Some t \<or> (\<exists>who. Put who k t \<in> set t2)"
    and c2: "\<And>k. map_of (transports c) k \<noteq> map_of (transports b) k \<Longrightarrow>
               \<exists>x \<in> set t2. touches k x"
    unfolding tracked_def by blast
  have tr: "trace c = trace a @ (t1 @ t2)" using 1 2 by simp
  have p: "map_of (transports a) k = Some t \<or> (\<exists>who. Put who k t \<in> set (t1 @ t2))"
    if "map_of (transports c) k = Some t" for k t
    using p2 [OF that] p1 [of k t] by auto
  have c: "\<exists>x \<in> set (t1 @ t2). touches k x"
    if "map_of (transports c) k \<noteq> map_of (transports a) k" for k
  proof (cases "map_of (transports c) k = map_of (transports b) k")
    case True
    with that have "map_of (transports b) k \<noteq> map_of (transports a) k" by simp
    from c1 [OF this] show ?thesis by auto
  next
    case False
    from c2 [OF this] show ?thesis by auto
  qed
  show ?thesis
    unfolding tracked_def using tr p c by (intro exI [of _ "t1 @ t2"]) blast
qed

lemma tracked_log: "tracked st (log a st)"
  by (rule tracked_same [of _ _ "[a]"]) (simp_all add: log_def)

lemma tracked_new_transport: "tracked st (snd (new_transport g st))"
  by (rule tracked_same [of _ _ "[Construct (length (heap st)) g]"])
     (simp_all add: new_transport_def)

lemma tracked_store: "tracked st (store_transport who k t st)"
  unfolding tracked_def store_transport_def
  by (intro exI [of _ "[Put who k t]"]) (auto simp: AList.update_conv')

lemma tracked_delete: "tracked st (delete_transport Callback k st)"
  unfolding tracked_def delete_transport_def
  by (intro exI [of _ "[Remove Callback k]"]) (auto simp: AList.delete_conv')

lemma tracked_lib_step: "tracked st (lib_step t e st)"
proof (cases e)
  case (AssignSessionId d)
  show ?thesis
  proof (cases "t < length (heap st) \<and> sessionId (heap st ! t) = None")
    case True
    define h where "h = (heap st)[t := (heap st ! t)
        \<lparr>sessionId := Some (generate (sessionIdGenerator (heap st ! t)) d)\<rparr>]"
    have a: "tracked st (st\<lparr>heap := h\<rparr>)"
      by (rule tracked_same [of _ _ "[]"]) simp_all
    have "lib_step t e st =
            store_transport Callback (generate (sessionIdGenerator (heap st ! t)) d) t
              (st\<lparr>heap := h\<rparr>)"
      using True AssignSessionId by (simp add: onsessioninitialized_def Let_def h_def)
    with tracked_trans [OF a tracked_store] show ?thesis by simp
  next
    case False
    then have "lib_step t e st = st"
      using AssignSessionId by (auto split: option.splits)
    then show ?thesis by (simp add: tracked_refl)
  qed
next
  case Teardown
  have "onclose t st = st \<or> (\<exists>s. onclose t st = delete_transport Callback s st)"
    by (auto simp: onclose_def Let_def split: option.splits)
  with Teardown show ?thesis by (auto simp: tracked_refl tracked_delete)
qed

lemma tracked_lib_run: "tracked st (lib_run t es st)"
proof (induction es arbitrary: st)
  case Nil
  show ?case by (simp add: tracked_refl)
next
  case (Cons e es)
  from tracked_trans [OF tracked_lib_step Cons.IH] show ?case by simp
qed

lemma tracked_invoke: "tracked st (fst (invoke_handleRequest lib req v st))"
proof (cases v)
  case (Ref t)
  from tracked_trans [OF tracked_log tracked_lib_run] show ?thesis
    using Ref by (simp add: Let_def)
qed (simp_all add: tracked_refl)

lemma tracked_post: "tracked st (fst (post_mcp lib st req))"
proof -
  let ?t = "length (heap st)"
  have new: "tracked st (snd (new_transport g st))" for g
    by (rule tracked_new_transport)
  have conn: "tracked st (log (Connect ?t) (snd (new_transport g st)))" for g
    by (rule tracked_trans [OF new tracked_log])
  have init: "tracked st (fst (post_initialize lib st req))"
  proof (cases "connect_raises lib ?t")
    case True
    then have "fst (post_initialize lib st req) = snd (new_transport RandomUUID st)"
      by (simp add: post_initialize_def new_transport_def)
    with new show ?thesis by simp
  next
    case False
    then have eq: "fst (post_initialize lib st req) =
        fst (invoke_handleRequest lib req (Ref ?t)
               (log (Connect ?t) (snd (new_transport RandomUUID st))))"
      by (simp add: post_initialize_def new_transport_def Let_def split: prod.splits)
    show ?thesis unfolding eq by (rule tracked_trans [OF conn tracked_invoke])
  qed
  have prov: "tracked st (fst (post_provided lib st req s))" for s
  proof (cases "connect_raises lib ?t")
    case True
    then have "fst (post_provided lib st req s) = snd (new_transport (ProvidedId s) st)"
      by (simp add: post_provided_def new_transport_def)
    with new show ?thesis by simp
  next
    case False
    then have eq: "fst (post_provided lib st req s) =
        fst (invoke_handleRequest lib req (Ref ?t)
               (store_transport Handler s ?t
                  (log (Connect ?t) (snd (new_transport (ProvidedId s) st)))))"
      by (simp add: post_provided_def new_transport_def)
    show ?thesis
      unfolding eq
      by (rule tracked_trans [OF tracked_trans [OF conn tracked_store] tracked_invoke])
  qed
  show ?thesis
    using init prov tracked_invoke [of st lib req] tracked_refl [of st]
    by (auto simp: post_mcp_def Let_def split: option.splits)
qed

lemma tracked_get: "tracked st (fst (get_mcp lib st req))"
  using fst_get_mcp [of lib st req] tracked_invoke [of st lib req] tracked_refl [of st]
  by auto

lemma tracked_delete_mcp: "tracked st (fst (delete_mcp lib st req))"
  using fst_delete_mcp [of lib st req] tracked_invoke [of st lib req] tracked_refl [of st]
  by auto

lemma tracked_env_run: "tracked st (env_run env st)"
proof (induction env arbitrary: st)
  case Nil
  show ?case by (simp add: tracked_refl)
next
  case (Cons a env)
  show ?case
  proof (cases a)
    case (ServePost lib req)
    from tracked_trans [OF tracked_post Cons.IH] show ?thesis using ServePost by simp
  next
    case (ServeGet lib req)
    from tracked_trans [OF tracked_get Cons.IH] show ?thesis using ServeGet by simp
  next
    case (ServeDelete lib req)
    from tracked_trans [OF tracked_delete_mcp Cons.IH] show ?thesis using ServeDelete by simp
  next
    case (Fire t e)
    from tracked_trans [OF tracked_lib_step Cons.IH] show ?thesis using Fire by simp
  qed
qed

lemma close_session_turn:
  "\<exists>tr. trace (close_session lib env k1 st) = trace st @ tr \<and>
     (\<forall>k t. map_of (transports (close_session lib env k1 st)) k = Some t \<longrightarrow>
        map_of (transports st) k = Some t \<and> (k = k1 \<longrightarrow> raises (close lib t)) \<or>
        (\<exists>who. Put who k t \<in> set tr)) \<and>
     (\<forall>k t. map_of (transports st) k = Some t \<longrightarrow>
        (k = k1 \<longrightarrow> Close t \<in> set tr) \<and>
        (k \<noteq> k1 \<longrightarrow> map_of (transports (close_session lib env k1 st)) k = Some t \<or>
           (\<exists>a \<in> set tr. touches k a)))"
proof (cases "map_of (transports st) k1")
  case None
  then have "close_session lib env k1 st = st" by (simp add: close_session_def)
  with None show ?thesis by (intro exI [of _ "[]"]) auto
next
  case (Some t1)
  define st2 where
    "st2 = env_run env (lib_run t1 (events (close lib t1)) (log (Close t1) st))"
  have "tracked (log (Close t1) st) st2"
    unfolding st2_def by (rule tracked_trans [OF tracked_lib_run tracked_env_run])
  then obtain tr where
    tr: "trace st2 = trace st @ Close t1 # tr"
    and p: "\<And>k t. map_of (transports st2) k = Some t \<Longrightarrow>
              map_of (transports st) k = Some t \<or> (\<exists>who. Put who k t \<in> set tr)"
    and c: "\<And>k. map_of (transports st2) k \<noteq> map_of (transports st) k \<Longrightarrow>
              \<exists>a \<in> set tr. touches k a"
    unfolding tracked_def by (auto simp: log_def)
  show ?thesis
  proof (cases "raises (close lib t1)")
    case True
    then have eq: "close_session lib env k1 st = st2"
      using Some by (simp add: close_session_def Let_def st2_def)
    have a: "map_of (transports st) k = Some t \<and> (k = k1 \<longrightarrow> raises (close lib t)) \<or>
             (\<exists>who. Put who k t \<in> set (Close t1 # tr))"
      if "map_of (transports st2) k = Some t" for k t
      using p [OF that] Some True by auto
    have b: "(k = k1 \<longrightarrow> Close t \<in> set (Close t1 # tr)) \<and>
             (k \<noteq> k1 \<longrightarrow> map_of (transports st2) k = Some t \<or>
                (\<exists>a \<in> set (Close t1 # tr). touches k a))"
      if "map_of (transports st) k = Some t" for k t
      using that Some c [of k] by auto
    show ?thesis
      unfolding eq using tr a b by (intro exI [of _ "Close t1 # tr"]) blast
  next
    case False
    then have eq: "close_session lib env k1 st = delete_transport Shutdown k1 st2"
      using Some by (simp add: close_session_def Let_def st2_def)
    let ?tr = "Close t1 # tr @ [Remove Shutdown k1]"
    have t: "trace (delete_transport Shutdown k1 st2) = trace st @ ?tr"
      using tr by (simp add: delete_transport_def)
    have m: "map_of (transports (delete_transport Shutdown k1 st2)) k =
             (if k = k1 then None else map_of (transports st2) k)" for k
      by (simp add: delete_transport_def AList.delete_conv')
    have a: "map_of (transports st) k = Some t \<and> (k = k1 \<longrightarrow> raises (close lib t)) \<or>
             (\<exists>who. Put who k t \<in> set ?tr)"
      if "map_of (transports (delete_transport Shutdown k1 st2)) k = Some t" for k t
    proof -
      from that have "k \<noteq> k1" "map_of (transports st2) k = Some t"
        by (auto simp: m split: if_splits)
      with p [of k t] show ?thesis by auto
    qed
    have b: "(k = k1 \<longrightarrow> Close t \<in> set ?tr) \<and>
             (k \<noteq> k1 \<longrightarrow> map_of (transports (delete_transport Shutdown k1 st2)) k = Some t \<or>
                (\<exists>a \<in> set ?tr. touches k a))"
      if "map_of (transports st) k = Some t" for k t
      using that Some c [of k] by (auto simp: m)
    show ?thesis
      unfolding eq using t a b by (intro exI [of _ ?tr]) blast
  qed
qed

lemma close_sessions_step:
  assumes turn: "\<exists>tr. trace s1 = trace st @ tr \<and>
     (\<forall>k t. map_of (transports s1) k = Some t \<longrightarrow>
        map_of (transports st) k = Some t \<and> (k = k1 \<longrightarrow> raises (close lib t)) \<or>
        (\<exists>who. Put who k t \<in> set tr)) \<and>
     (\<forall>k t. map_of (transports st) k = Some t \<longrightarrow>
        (k = k1 \<longrightarrow> Close t \<in> set tr) \<and>
        (k \<noteq> k1 \<longrightarrow> map_of (transports s1) k = Some t \<or> (\<exists>a \<in> set tr. touches k a)))"
    and rest: "\<exists>tr. trace fin = trace s1 @ tr \<and>
     (\<forall>k t. map_of (transports fin) k = Some t \<longrightarrow>
        map_of (transports s1) k = Some t \<and> (k \<in> set ks \<longrightarrow> raises (close lib t)) \<or>
        (\<exists>who. Put who k t \<in> set tr)) \<and>
     (\<forall>k t. k \<in> set ks \<longrightarrow> map_of (transports s1) k = Some t \<longrightarrow>
        Close t \<in> set tr \<or> (\<exists>a \<in> set tr. touches k a))"
  shows "\<exists>tr. trace fin = trace st @ tr \<and>
     (\<forall>k t. map_of (transports fin) k = Some t \<longrightarrow>
        map_of (transports st) k = Some t \<and> (k \<in> set (k1 # ks) \<longrightarrow> raises (close lib t)) \<or>
        (\<exists>who. Put who k t \<in> set tr)) \<and>
     (\<forall>k t. k \<in> set (k1 # ks) \<longrightarrow> map_of (transports st) k = Some t \<longrightarrow>
        Close t \<in> set tr \<or> (\<exists>a \<in> set tr. touches k a))"
proof -
  from turn obtain t1 where
    1: "trace s1 = trace st @ t1"
    and a1: "\<And>k t. map_of (transports s1) k = Some t \<Longrightarrow>
        map_of (transports st) k = Some t \<and> (k = k1 \<longrightarrow> raises (close lib t)) \<or>
        (\<exists>who. Put who k t \<in> set t1)"
    and b1: "\<And>k t. map_of (transports st) k = Some t \<Longrightarrow>
        (k = k1 \<longrightarrow> Close t \<in> set t1) \<and>
        (k \<noteq> k1 \<longrightarrow> map_of (transports s1) k = Some t \<or> (\<exists>a \<in> set t1. touches k a))"
    by blast
  from rest obtain t2 where
    2: "trace fin = trace s1 @ t2"
    and a2: "\<And>k t. map_of (transports fin) k = Some t \<Longrightarrow>
        map_of (transports s1) k = Some t \<and> (k \<in> set ks \<longrightarrow> raises (close lib t)) \<or>
        (\<exists>who. Put who k t \<in> set t2)"
    and b2: "\<And>k t. k \<in> set ks \<Longrightarrow> map_of (transports s1) k = Some t \<Longrightarrow>
        Close t \<in> set t2 \<or> (\<exists>a \<in> set t2. touches k a)"
    by blast
  have t: "trace fin = trace st @ (t1 @ t2)" using 1 2 by simp
  have a: "map_of (transports st) k = Some t \<and> (k \<in> set (k1 # ks) \<longrightarrow> raises (close lib t)) \<or>
           (\<exists>who. Put who k t \<in> set (t1 @ t2))"
    if "map_of (transports fin) k = Some t" for k t
    using a2 [OF that] a1 [of k t] by auto
  have b: "Close t \<in> set (t1 @ t2) \<or> (\<exists>a \<in> set (t1 @ t2). touches k a)"
    if "k \<in> set (k1 # ks)" and "map_of (transports st) k = Some t" for k t
  proof (cases "k = k1")
    case True
    with b1 [OF that(2)] show ?thesis by simp
  next
    case False
    with that(1) have in_ks: "k \<in> set ks" by simp
    from b1 [OF that(2)] False
    consider "map_of (transports s1) k = Some t" | "\<exists>a \<in> set t1. touches k a" by blast
    then show ?thesis
    proof cases
      case 1
      from b2 [OF in_ks 1] show ?thesis by auto
    next
      case 2
      then show ?thesis by auto
    qed
  qed
  show ?thesis using t a b by (intro exI [of _ "t1 @ t2"]) blast
qed

lemma close_sessions_loop:
  "\<exists>tr. trace (close_sessions lib ks envs st) = trace st @ tr \<and>
     (\<forall>k t. map_of (transports (close_sessions lib ks envs st)) k = Some t \<longrightarrow>
        map_of (transports st) k = Some t \<and> (k \<in> set ks \<longrightarrow> raises (close lib t)) \<or>
        (\<exists>who. Put who k t \<in> set tr)) \<and>
     (\<forall>k t. k \<in> set ks \<longrightarrow> map_of (transports st) k = Some t \<longrightarrow>
        Close t \<in> set tr \<or> (\<exists>a \<in> set tr. touches k a))"
proof (induction lib ks envs st rule: close_sessions.induct)
  case (1 lib envs st)
  show ?case by (intro exI [of _ "[]"]) simp
next
  case (2 lib k ks st)
  from close_sessions_step [OF close_session_turn 2] show ?case by simp
next
  case (3 lib k ks env envs st)
  from close_sessions_step [OF close_session_turn 3] show ?case by simp
qed

text \<open>
  The turns during which nothing else happens.
\<close>

lemma close_session_keys:
  assumes "key_consistent st"
  shows "fst ` set (transports (close_session lib [] k1 st)) \<subseteq> fst ` set (transports st)"
proof (cases "map_of (transports st) k1")
  case None
  then show ?thesis by (simp add: close_session_def)
next
  case (Some t)
  from key_consistentD [OF assms Some]
  have t: "t < length (heap st)" "session_id_for (heap st ! t) = Some k1" by auto
  have k1: "k1 \<in> fst ` set (transports st)"
    using Some by (metis domI dom_map_of_conv_image_fst)
  have "fst ` set (transports (lib_run t (events (close lib t)) (log (Close t) st)))
          \<subseteq> insert k1 (fst ` set (transports st))"
    using lib_run_owner [of t "log (Close t) st" k1 "events (close lib t)"] t
    by (simp add: log_def)
  with k1 have sub: "fst ` set (transports (lib_run t (events (close lib t)) (log (Close t) st)))
          \<subseteq> fst ` set (transports st)" by auto
  have del: "fst ` set (AList.delete k1
               (transports (lib_run t (events (close lib t)) (log (Close t) st))))
          \<subseteq> fst ` set (transports st)"
    by (rule order_trans [OF AList.dom_delete_subset sub])
  show ?thesis
  proof (cases "raises (close lib t)")
    case True
    with Some sub show ?thesis by (simp add: close_session_def Let_def)
  next
    case False
    with Some del show ?thesis by (simp add: close_session_def Let_def delete_transport_def)
  qed
qed

lemma close_session_other:
  assumes "key_consistent st" and "k \<noteq> k1"
  shows "map_of (transports (close_session lib [] k1 st)) k = map_of (transports st) k"
proof (cases "map_of (transports st) k1")
  case None
  then show ?thesis by (simp add: close_session_def)
next
  case (Some t)
  from key_consistentD [OF assms(1) Some]
  have t: "t < length (heap st)" "session_id_for (heap st ! t) = Some k1" by auto
  have "map_of (transports (lib_run t (events (close lib t)) (log (Close t) st))) k =
        map_of (transports st) k"
    using lib_run_other [of t "log (Close t) st" k1 k "events (close lib t)"] t assms(2)
    by (simp add: log_def)
  then show ?thesis
    using Some assms(2)
    by (simp add: close_session_def Let_def delete_transport_def AList.delete_conv')
qed

lemma close_session_left:
  assumes "k1 \<in> fst ` set (transports (close_session lib [] k1 st))"
  shows "\<exists>t. map_of (transports st) k1 = Some t \<and> raises (close lib t)"
proof (cases "map_of (transports st) k1")
  case None
  then have "k1 \<notin> fst ` set (transports st)" by (simp add: map_of_eq_None_iff)
  with assms None show ?thesis by (simp add: close_session_def)
next
  case (Some t)
  show ?thesis
  proof (cases "raises (close lib t)")
    case True
    with Some show ?thesis by simp
  next
    case False
    with Some assms show ?thesis
      by (simp add: close_session_def Let_def delete_transport_def AList.delete_notin_dom)
  qed
qed

lemma trace_close_session:
  "\<exists>tr. trace (close_session lib env k st) = trace st @ tr"
  using close_session_turn [of lib env k st] by blast

lemma trace_close_sessions:
  "\<exists>tr. trace (close_sessions lib ks envs st) = trace st @ tr"
  using close_sessions_loop [of lib ks envs st] by blast

lemma close_session_logs:
  assumes "map_of (transports st) k = Some t"
  shows "\<exists>tr. trace (close_session lib env k st) = trace st @ tr \<and> Close t \<in> set tr"
  using close_session_turn [of lib env k st] assms by blast

lemma close_sessions_closes:
  assumes "key_consistent st" and "k \<in> set ks" and "map_of (transports st) k = Some t"
  shows "\<exists>tr. trace (close_sessions lib ks [] st) = trace st @ tr \<and> Close t \<in> set tr"
  using assms
proof (induction ks arbitrary: st)
  case Nil
  then show ?case by simp
next
  case (Cons k1 ks)
  let ?s1 = "close_session lib [] k1 st"
  show ?case
  proof (cases "k1 = k")
    case True
    obtain t1 where 1: "trace ?s1 = trace st @ t1" "Close t \<in> set t1"
      using close_session_logs [OF Cons.prems(3), of lib "[]"] True by blast
    obtain t2 where 2: "trace (close_sessions lib ks [] ?s1) = trace ?s1 @ t2"
      using trace_close_sessions by blast
    from 1 2 show ?thesis by (intro exI [of _ "t1 @ t2"]) simp
  next
    case False
    with Cons.prems have in_ks: "k \<in> set ks" by simp
    have m: "map_of (transports ?s1) k = Some t"
      using close_session_other [OF Cons.prems(1), of k k1 lib] False Cons.prems(3) by simp
    obtain t1 where 1: "trace ?s1 = trace st @ t1"
      using trace_close_session by blast
    obtain t2 where 2: "trace (close_sessions lib ks [] ?s1) = trace ?s1 @ t2"
      "Close t \<in> set t2"
      using Cons.IH [OF key_consistent_close_session [OF Cons.prems(1)] in_ks m] by blast
    from 1 2 show ?thesis by (intro exI [of _ "t1 @ t2"]) simp
  qed
qed

lemma close_sessions_left:
  assumes "key_consistent st" and "k \<in> fst ` set (transports (close_sessions lib ks [] st))"
  shows "k \<in> fst ` set (transports st) \<and>
         (k \<in> set ks \<longrightarrow> (\<exists>t. map_of (transports st) k = Some t \<and> raises (close lib t)))"
  using assms
proof (induction ks arbitrary: st)
  case Nil
  then show ?case by simp
next
  case (Cons k1 ks)
  let ?s1 = "close_session lib [] k1 st"
  have kc1: "key_consistent ?s1" by (rule key_consistent_close_session [OF Cons.prems(1)])
  from Cons.prems(2) have fin: "k \<in> fst ` set (transports (close_sessions lib ks [] ?s1))"
    by simp
  from Cons.IH [OF kc1 fin]
  have in1: "k \<in> fst ` set (transports ?s1)"
    and later: "k \<in> set ks \<Longrightarrow> \<exists>t. map_of (transports ?s1) k = Some t \<and> raises (close lib t)"
    by auto
  have in0: "k \<in> fst ` set (transports st)"
    using in1 close_session_keys [OF Cons.prems(1), of lib k1] by auto
  have "\<exists>t. map_of (transports st) k = Some t \<and> raises (close lib t)" if "k \<in> set (k1 # ks)"
  proof (cases "k = k1")
    case True
    with in1 close_session_left [of k1 lib st] show ?thesis by simp
  next
    case False
    with that have "k \<in> set ks" by simp
    from later [OF this] close_session_other [OF Cons.prems(1) False, of lib]
    show ?thesis by simp
  qed
  with in0 show ?case by blast
qed

lemma close_sessions_quiet:
  "\<forall>env \<in> set envs. env = [] \<Longrightarrow>
   close_sessions lib ks envs st = close_sessions lib ks [] st"
  by (induction lib ks envs st rule: close_sessions.induct) simp_all

lemma shutdown_failing_close:
  "gracefulShutdown failing_close_library [] after_abc =
     after_abc\<lparr>trace := trace after_abc @ [Close 0]\<rparr>"
  by (simp add: gracefulShutdown_def for_in_keys_abc close_session_def
      failing_close_library_def sample_library_def after_abc_eq log_def Let_def)

lemma shutdown_post_c:
  "gracefulShutdown (sample_library 5) post_c_during_close after_abc =
     \<lparr>transports = [(''c'', 1)],
      heap = [\<lparr>sessionIdGenerator = ProvidedId ''abc'', sessionId = None\<rparr>,
              \<lparr>sessionIdGenerator = ProvidedId ''c'', sessionId = None\<rparr>],
      trace = trace after_abc @
        [Close 0, Construct 1 (ProvidedId ''c''), Connect 1, Put Handler ''c'' 1,
         HandleRequest 1, Remove Shutdown ''abc'']\<rparr>"
  by (simp add: gracefulShutdown_def for_in_keys_abc close_session_def post_c_during_close_def
      after_abc_eq handler_defs sample_defs)

text \<open>
  C6, amended. The loop of \<^verbatim>\<open>gracefulShutdown\<close> awaits \<^verbatim>\<open>close()\<close> in every turn,
  and requests and callbacks are served meanwhile (\<open>envs\<close>). Started in any state, with
  any library and whatever is served during the turns: a session that is in
  \<^verbatim>\<open>transports\<close> after the loop either was there when the loop started and its
  \<^verbatim>\<open>close()\<close> raised, or was stored while the loop ran; and for every session that
  was in \<^verbatim>\<open>transports\<close> when the loop started, the loop has called \<^verbatim>\<open>close()\<close>
  on it, whatever happened to the others, unless its key was assigned anew or deleted by
  a close callback while the loop ran. When the loop starts in a reachable state and
  nothing is served during it, \<^verbatim>\<open>close()\<close> has been called on every session that was
  open, and every key left belongs to a session whose \<^verbatim>\<open>close()\<close> raised: then
  \<^verbatim>\<open>transports\<close> is empty when no \<^verbatim>\<open>close()\<close> raises, and a failure for one
  session does not keep the others from being closed and removed.
\<close>

theorem shutdown_closes_all_removes_closed:
  "(\<forall>k t. map_of (transports (gracefulShutdown lib envs st)) k = Some t \<longrightarrow>
      map_of (transports st) k = Some t \<and> raises (close lib t) \<or>
      (\<exists>who. Put who k t \<in> set (loop_actions lib envs st))) \<and>
   (\<forall>k t. map_of (transports st) k = Some t \<longrightarrow>
      Close t \<in> set (loop_actions lib envs st) \<or>
      (\<exists>a \<in> set (loop_actions lib envs st). touches k a)) \<and>
   (reachable st \<and> (\<forall>env \<in> set envs. env = []) \<longrightarrow>
      (\<forall>k t. map_of (transports st) k = Some t \<longrightarrow>
         Close t \<in> set (loop_actions lib envs st)) \<and>
      (\<forall>k \<in> fst ` set (transports (gracefulShutdown lib envs st)).
         \<exists>t. map_of (transports st) k = Some t \<and> raises (close lib t)))"
proof -
  let ?ks = "for_in_keys (transports st)"
  have key: "k \<in> set ?ks" if "map_of (transports st) k = Some t" for k t
    using that by (metis domI dom_map_of_conv_image_fst set_for_in_keys)
  obtain tr where
    tr: "trace (gracefulShutdown lib envs st) = trace st @ tr"
    and a: "\<And>k t. map_of (transports (gracefulShutdown lib envs st)) k = Some t \<Longrightarrow>
        map_of (transports st) k = Some t \<and> (k \<in> set ?ks \<longrightarrow> raises (close lib t)) \<or>
        (\<exists>who. Put who k t \<in> set tr)"
    and b: "\<And>k t. k \<in> set ?ks \<Longrightarrow> map_of (transports st) k = Some t \<Longrightarrow>
        Close t \<in> set tr \<or> (\<exists>a \<in> set tr. touches k a)"
    using close_sessions_loop [of lib ?ks envs st] unfolding gracefulShutdown_def by blast
  have la: "loop_actions lib envs st = tr"
    by (simp add: loop_actions_def tr)
  have 1: "map_of (transports st) k = Some t \<and> raises (close lib t) \<or>
           (\<exists>who. Put who k t \<in> set (loop_actions lib envs st))"
    if "map_of (transports (gracefulShutdown lib envs st)) k = Some t" for k t
    using a [OF that] key [of k t] unfolding la by blast
  have 2: "Close t \<in> set (loop_actions lib envs st) \<or>
           (\<exists>a \<in> set (loop_actions lib envs st). touches k a)"
    if "map_of (transports st) k = Some t" for k t
    using b [OF key [OF that] that] unfolding la .
  have 3: "(\<forall>k t. map_of (transports st) k = Some t \<longrightarrow>
              Close t \<in> set (loop_actions lib envs st)) \<and>
           (\<forall>k \<in> fst ` set (transports (gracefulShutdown lib envs st)).
              \<exists>t. map_of (transports st) k = Some t \<and> raises (close lib t))"
    if r: "reachable st" and q: "\<forall>env \<in> set envs. env = []"
  proof -
    have kc: "key_consistent st" by (rule reachable_key_consistent [OF r])
    have g: "gracefulShutdown lib envs st = close_sessions lib ?ks [] st"
      unfolding gracefulShutdown_def by (rule close_sessions_quiet [OF q])
    have c: "Close t \<in> set (loop_actions lib envs st)"
      if "map_of (transports st) k = Some t" for k t
      using close_sessions_closes [OF kc key [OF that] that, of lib]
      by (auto simp: loop_actions_def g)
    have d: "\<exists>t. map_of (transports st) k = Some t \<and> raises (close lib t)"
      if "k \<in> fst ` set (transports (gracefulShutdown lib envs st))" for k
      using close_sessions_left [OF kc that [unfolded g]]
      by (simp add: set_for_in_keys)
    from c d show ?thesis by blast
  qed
  from 1 2 3 show ?thesis by blast
qed

theorem shutdown_closes_all_removes_closed_witness:
  "Close 0 \<in> set (loop_actions (sample_library 5) [] after_abc) \<and>
   transports (gracefulShutdown (sample_library 5) [] after_abc) = [] \<and>
   (\<exists>who. Put who ''c'' 1 \<in> set (loop_actions (sample_library 5) post_c_during_close after_abc)) \<and>
   Close 0 \<in> set (loop_actions (sample_library 5) post_c_during_close after_abc)"
proof -
  note q = shutdown_closes_all_removes_closed [where lib = "sample_library 5"
      and envs = "[]" and st = after_abc]
  note p = shutdown_closes_all_removes_closed [where lib = "sample_library 5"
      and envs = post_c_during_close and st = after_abc]
  have m: "map_of (transports after_abc) ''abc'' = Some 0"
    by (simp add: after_abc_eq)
  have nr: "\<not> raises (close (sample_library 5) t)" for t
    by (simp add: sample_library_def)
  from q reachable_after_abc
  have q3: "(\<forall>k t. map_of (transports after_abc) k = Some t \<longrightarrow>
              Close t \<in> set (loop_actions (sample_library 5) [] after_abc)) \<and>
            (\<forall>k \<in> fst ` set (transports (gracefulShutdown (sample_library 5) [] after_abc)).
              \<exists>t. map_of (transports after_abc) k = Some t \<and>
                  raises (close (sample_library 5) t))"
    by simp
  from q3 m have 1: "Close 0 \<in> set (loop_actions (sample_library 5) [] after_abc)"
    by blast
  from q3 nr
  have "fst ` set (transports (gracefulShutdown (sample_library 5) [] after_abc)) = {}"
    by auto
  then have 2: "transports (gracefulShutdown (sample_library 5) [] after_abc) = []"
    by simp
  have f: "map_of (transports (gracefulShutdown (sample_library 5) post_c_during_close
             after_abc)) ''c'' = Some 1"
    by (simp add: shutdown_post_c)
  have n: "map_of (transports after_abc) ''c'' = None"
    by (simp add: after_abc_eq)
  from p f n
  have 3: "\<exists>who. Put who ''c'' 1 \<in>
             set (loop_actions (sample_library 5) post_c_during_close after_abc)"
    by (metis option.distinct(1))
  have nt: "\<not> (\<exists>a \<in> set (loop_actions (sample_library 5) post_c_during_close after_abc).
             touches ''abc'' a)"
    by (simp add: loop_actions_def shutdown_post_c)
  from p m nt
  have 4: "Close 0 \<in> set (loop_actions (sample_library 5) post_c_during_close after_abc)"
    by blast
  from 1 2 3 4 show ?thesis by blast
qed

text \<open>
  As stated (empty after the loop, even when a \<^verbatim>\<open>close()\<close> raises) the property
  fails, in two ways. The \<^verbatim>\<open>delete\<close> stands inside the \<^verbatim>\<open>try\<close> block after the
  call, so a \<^verbatim>\<open>close()\<close> that raises without having fired the close callback leaves
  its session in \<^verbatim>\<open>transports\<close>. And the loop visits the keys it found when it
  started while the listener is still open: a session created by a POST that is served
  during a turn stays in \<^verbatim>\<open>transports\<close>, and \<^verbatim>\<open>close()\<close> is never called on it,
  although no \<^verbatim>\<open>close()\<close> raises.
\<close>

theorem shutdown_registry_not_empty_counterexample:
  "transports (gracefulShutdown failing_close_library [] after_abc) = [(''abc'', 0)] \<and>
   \<not> raises (close (sample_library 5) 0) \<and>
   transports (gracefulShutdown (sample_library 5) post_c_during_close after_abc) =
     [(''c'', 1)] \<and>
   Close 1 \<notin> set (trace (gracefulShutdown (sample_library 5) post_c_during_close after_abc))"
proof -
  have 1: "transports (gracefulShutdown failing_close_library [] after_abc) = [(''abc'', 0)]"
    unfolding shutdown_failing_close by (simp add: after_abc_eq)
  have 2: "\<not> raises (close (sample_library 5) 0)"
    by (simp add: sample_library_def)
  have 3: "transports (gracefulShutdown (sample_library 5) post_c_during_close after_abc) =
             [(''c'', 1)]"
    unfolding shutdown_post_c by simp
  have 4: "Close 1 \<notin>
             set (trace (gracefulShutdown (sample_library 5) post_c_during_close after_abc))"
    unfolding shutdown_post_c by (simp add: after_abc_eq)
  from 1 2 3 4 show ?thesis by simp
qed

subsection \<open>The close callback\<close>

lemma onclose_heap [simp]: "heap (onclose t st) = heap st"
  by (simp add: onclose_def delete_transport_def Let_def split: option.splits)
















subsection \<open>The GET and DELETE handlers\<close>

text \<open>
  C8. The GET and the DELETE handler test \<^verbatim>\<open>!transports[sessionId]\<close>, and for a
  session id that names a property of \<^verbatim>\<open>Object.prototype\<close> the read finds the
  inherited property. With the header \<^verbatim>\<open>mcp-session-id: constructor\<close> and no session
  at all, neither handler answers 400: each calls \<^verbatim>\<open>handleRequest\<close> on the inherited
  value, which throws, and answers 500 with the text of its \<^verbatim>\<open>catch\<close> block.
\<close>

theorem get_delete_inherited_name_answer_500:
  "get_mcp lib initial inherited_name_request =
     (initial, \<lparr>status = Some 500, body = Some (TextBody ''Internal server error''),
                out_headers = [], respond = True\<rparr>) \<and>
   delete_mcp lib initial inherited_name_request =
     (initial, \<lparr>status = Some 500,
                body = Some (TextBody ''Error processing session termination''),
                out_headers = [], respond = True\<rparr>)"
  by (simp add: handler_defs inherited_name_request_def tool_request_def initial_def)

theorem get_delete_inherited_name_answer_500_witness:
  "map_of (transports initial) ''constructor'' = None \<and>
   status (snd (get_mcp (sample_library 5) initial inherited_name_request)) = Some 500 \<and>
   status (snd (delete_mcp (sample_library 5) initial inherited_name_request)) = Some 500"
  using get_delete_inherited_name_answer_500 [of "sample_library 5"]
  by (simp add: initial_def)

text \<open>
  For every other request the handlers do what is intended: a session id that is absent,
  empty, or plain and not a key of \<^verbatim>\<open>transports\<close> is answered with status 400 and the
  text \<^verbatim>\<open>Invalid or missing session ID\<close>, the state untouched; a session id that is a
  key is delegated to the transport stored under it.
\<close>

lemma get_delete_unknown_rejected:
  assumes "\<not> truthy_header (map_of (req_headers req) ''mcp-session-id'') \<or>
           (\<exists>s. map_of (req_headers req) ''mcp-session-id'' = Some s \<and>
                map_of (transports st) s = None \<and> s \<notin> set object_prototype_keys)"
  shows "get_mcp lib st req =
           (st, \<lparr>status = Some 400, body = Some (TextBody ''Invalid or missing session ID''),
                 out_headers = [], respond = True\<rparr>) \<and>
         delete_mcp lib st req =
           (st, \<lparr>status = Some 400, body = Some (TextBody ''Invalid or missing session ID''),
                 out_headers = [], respond = True\<rparr>)"
  using assms
  by (auto simp: get_mcp_def delete_mcp_def invalid_session_def ctx0_def get_property_def Let_def)

lemma get_delete_known_delegated:
  assumes "map_of (req_headers req) ''mcp-session-id'' = Some s" and "s \<noteq> []"
    and "map_of (transports st) s = Some t"
  shows "handler_actions st (fst (get_mcp lib st req)) = [HandleRequest t] \<and>
         handler_actions st (fst (delete_mcp lib st req)) = [HandleRequest t]"
  using assms
  by (simp add: get_mcp_def delete_mcp_def get_property_def Let_def split_def
        handler_actions_lib_run log_def handler_actions_log [unfolded log_def])

lemma keys_invoke:
  assumes "key_consistent st"
  shows "fst ` set (transports (fst (invoke_handleRequest lib req (get_property (transports st) s) st)))
           \<subseteq> fst ` set (transports st)"
proof (cases "map_of (transports st) s")
  case None
  then show ?thesis by (simp add: get_property_def)
next
  case (Some t)
  from key_consistentD [OF assms Some]
  have t: "t < length (heap st)" "session_id_for (heap st ! t) = Some s" by auto
  have "s \<in> fst ` set (transports st)"
    using Some by (metis domI dom_map_of_conv_image_fst)
  with lib_run_owner [of t "log (HandleRequest t) st" s "events (handleRequest lib t req)"] t
  show ?thesis using Some by (auto simp: get_property_def Let_def log_def)
qed

text \<open>
  C10. Neither the GET nor the DELETE handler of \<^verbatim>\<open>/mcp\<close> adds a key to
  \<^verbatim>\<open>transports\<close>, whether the request is rejected, throws or is delegated: in every
  reachable state, and whatever the library does during the delegated call, the keys
  after the handler are among the keys before it.
\<close>

theorem get_delete_never_insert:
  assumes "reachable st"
  shows "fst ` set (transports (fst (get_mcp lib st req))) \<subseteq> fst ` set (transports st) \<and>
         fst ` set (transports (fst (delete_mcp lib st req))) \<subseteq> fst ` set (transports st)"
proof -
  have kc: "key_consistent st" using assms by (rule reachable_key_consistent)
  have inv: "fst ` set (transports (fst (invoke_handleRequest lib req
               (index_transports st (map_of (req_headers req) ''mcp-session-id'')) st)))
             \<subseteq> fst ` set (transports st)"
    using keys_invoke [OF kc]
    by (cases "map_of (req_headers req) ''mcp-session-id''") auto
  have "fst ` set (transports (fst (get_mcp lib st req))) \<subseteq> fst ` set (transports st)"
    using fst_get_mcp [of lib st req] inv by (metis subset_refl)
  moreover
  have "fst ` set (transports (fst (delete_mcp lib st req))) \<subseteq> fst ` set (transports st)"
    using fst_delete_mcp [of lib st req] inv by (metis subset_refl)
  ultimately show ?thesis by simp
qed

theorem get_delete_never_insert_witness:
  "fst ` set (transports (fst (get_mcp (sample_library 5) after_abc abc_request)))
     \<subseteq> fst ` set (transports after_abc) \<and>
   fst ` set (transports (fst (delete_mcp (sample_library 5) after_abc abc_request)))
     \<subseteq> fst ` set (transports after_abc)"
  using get_delete_never_insert [OF reachable_after_abc, of "sample_library 5" abc_request]
  by simp

end
